theory Spec2Isabelle
  imports Main
begin

section \<open>Text search over a line buffer (textModelSearch.ts)\<close>

text \<open>
  A shallow embedding of \<^verbatim>\<open>src/vs/editor/common/model/textModelSearch.ts\<close>.
  JavaScript strings are \<open>string\<close>; string indices, lengths, line numbers and columns are
  \<open>nat\<close> (positions are 1-based, and \<open>column - 1\<close> at column 0 is 0 here, which is also
  what \<^verbatim>\<open>substring\<close> and the \<^verbatim>\<open>lastIndex\<close> of a regular expression make of -1);
  the two numbers that the code lets go negative or that a caller chooses freely
  (\<^verbatim>\<open>_prevMatchStartIndex\<close>, \<^verbatim>\<open>lastMatchIndex\<close>, \<^verbatim>\<open>limitResultCount\<close>) are \<open>int\<close>.
  Mutable objects (the searcher, the regular expression's \<^verbatim>\<open>lastIndex\<close>, the result
  array) are passed in and returned.
\<close>

subsection \<open>Characters and the word classifier\<close>

definition LineFeed :: char where "LineFeed = CHR 0x0A"
definition CarriageReturn :: char where "CarriageReturn = CHR 0x0D"
definition Backslash :: char where "Backslash = CHR 0x5C"

text \<open>\<^verbatim>\<open>text.charCodeAt(i)\<close>: the code unit at \<open>i\<close>, or NaN (here \<open>None\<close>) out of range.\<close>

definition charCodeAt :: "string \<Rightarrow> nat \<Rightarrow> char option" where
  "charCodeAt text i = (if i < length text then Some (text ! i) else None)"

datatype WordCharacterClass = Regular | Whitespace | WordSeparator

text \<open>
  The class \<^verbatim>\<open>WordCharacterClassifier\<close> is imported from
  \<^verbatim>\<open>vs/editor/common/controller/wordCharacterClassifier\<close>; the search code only calls its
  \<^verbatim>\<open>get(charCode)\<close>, so a classifier is that function, taken as a parameter.
\<close>

type_synonym WordCharacterClassifier = "char option \<Rightarrow> WordCharacterClass"

definition leftIsWordBounday ::
  "WordCharacterClassifier \<Rightarrow> string \<Rightarrow> nat \<Rightarrow> nat \<Rightarrow> nat \<Rightarrow> bool" where
  "leftIsWordBounday wordSeparators text textLength matchStartIndex matchLength =
     (if matchStartIndex = 0 then True
      else if wordSeparators (charCodeAt text (matchStartIndex - 1)) \<noteq> Regular then True
      else if matchLength > 0
              \<and> wordSeparators (charCodeAt text matchStartIndex) \<noteq> Regular then True
      else False)"

definition rightIsWordBounday ::
  "WordCharacterClassifier \<Rightarrow> string \<Rightarrow> nat \<Rightarrow> nat \<Rightarrow> nat \<Rightarrow> bool" where
  "rightIsWordBounday wordSeparators text textLength matchStartIndex matchLength =
     (if matchStartIndex + matchLength = textLength then True
      else if wordSeparators (charCodeAt text (matchStartIndex + matchLength)) \<noteq> Regular
      then True
      else if matchLength > 0
              \<and> wordSeparators (charCodeAt text (matchStartIndex + matchLength - 1)) \<noteq> Regular
      then True
      else False)"

definition isValidMatch ::
  "WordCharacterClassifier \<Rightarrow> string \<Rightarrow> nat \<Rightarrow> nat \<Rightarrow> nat \<Rightarrow> bool" where
  "isValidMatch wordSeparators text textLength matchStartIndex matchLength =
     (leftIsWordBounday wordSeparators text textLength matchStartIndex matchLength
      \<and> rightIsWordBounday wordSeparators text textLength matchStartIndex matchLength)"

text \<open>
  The test both scanning paths apply to a raw match:
  \<^verbatim>\<open>!wordSeparators || isValidMatch(wordSeparators, text, textLength, index, length)\<close>.
\<close>

definition acceptsMatch ::
  "WordCharacterClassifier option \<Rightarrow> string \<Rightarrow> nat \<Rightarrow> nat \<Rightarrow> nat \<Rightarrow> bool" where
  "acceptsMatch wordSeparators text textLength matchStartIndex matchLength =
     (case wordSeparators of
        None \<Rightarrow> True
      | Some ws \<Rightarrow> isValidMatch ws text textLength matchStartIndex matchLength)"

subsection \<open>The regular expression object\<close>

text \<open>
  A compiled pattern is given by what it matches at a position: \<open>rx_matcher text p\<close> is
  \<open>None\<close> when the pattern does not match \<open>text\<close> at index \<open>p\<close>, and otherwise the length
  of the match there with the strings captured by the groups 1, 2, ...
  The pattern is a parameter; it is always created with the global flag.
\<close>

type_synonym matcher = "string \<Rightarrow> nat \<Rightarrow> (nat \<times> string list) option"

record RegExp =
  rx_matcher :: matcher
  multiline :: bool
  lastIndex :: nat

record RegExpExecArray =
  index :: nat
  match0 :: string
  captures :: "string list"

text \<open>
  \<^verbatim>\<open>regex.exec(text)\<close> of a global regular expression, as ECMAScript defines it: the
  first index from \<^verbatim>\<open>lastIndex\<close> up to the length of the text where the pattern
  matches; \<^verbatim>\<open>lastIndex\<close> becomes the end of the match, or 0 when there is none.
  Element 0 of the result is the matched part of the text.
\<close>

definition RegExp_exec :: "RegExp \<Rightarrow> string \<Rightarrow> RegExpExecArray option \<times> RegExp" where
  "RegExp_exec rx text =
     (case List.find (\<lambda>p. rx_matcher rx text p \<noteq> None) [lastIndex rx ..< Suc (length text)] of
        None \<Rightarrow> (None, rx\<lparr>lastIndex := 0\<rparr>)
      | Some p \<Rightarrow>
          (case rx_matcher rx text p of
             None \<Rightarrow> (None, rx\<lparr>lastIndex := 0\<rparr>)
           | Some (l, groups) \<Rightarrow>
               (Some \<lparr>index = p, match0 = take l (drop p text), captures = groups\<rparr>,
                rx\<lparr>lastIndex := p + length (take l (drop p text))\<rparr>)))"

subsection \<open>Searcher\<close>

record Searcher =
  wordSeparators :: "WordCharacterClassifier option"
  searchRegex :: RegExp
  prevMatchStartIndex :: int
  prevMatchLength :: nat

definition new_Searcher :: "WordCharacterClassifier option \<Rightarrow> RegExp \<Rightarrow> Searcher" where
  "new_Searcher ws rx =
     \<lparr>wordSeparators = ws, searchRegex = rx, prevMatchStartIndex = -1, prevMatchLength = 0\<rparr>"

definition Searcher_reset :: "Searcher \<Rightarrow> nat \<Rightarrow> Searcher" where
  "Searcher_reset s li =
     s\<lparr>searchRegex := (searchRegex s)\<lparr>lastIndex := li\<rparr>,
       prevMatchStartIndex := -1, prevMatchLength := 0\<rparr>"

text \<open>
  The progress of a scan: the characters left after \<^verbatim>\<open>lastIndex\<close>, and whether the
  empty match at \<^verbatim>\<open>lastIndex\<close> has been seen already.
\<close>

definition scan_measure :: "string \<Rightarrow> Searcher \<Rightarrow> nat" where
  "scan_measure text s =
     2 * (Suc (length text) - lastIndex (searchRegex s))
     + (if prevMatchStartIndex s = int (lastIndex (searchRegex s)) \<and> prevMatchLength s = 0
        then 0 else 1)"

function Searcher_next :: "Searcher \<Rightarrow> string \<Rightarrow> RegExpExecArray option \<times> Searcher" where
  "Searcher_next s text =
     (if prevMatchStartIndex s + int (prevMatchLength s) = int (length text) then (None, s)
      else
        (case RegExp_exec (searchRegex s) text of
           (None, rx') \<Rightarrow> (None, s\<lparr>searchRegex := rx'\<rparr>)
         | (Some m, rx') \<Rightarrow>
             if int (index m) = prevMatchStartIndex s \<and> length (match0 m) = prevMatchLength s
             then (None, s\<lparr>searchRegex := rx'\<rparr>)
             else if acceptsMatch (wordSeparators s) text (length text)
                       (index m) (length (match0 m))
             then (Some m, s\<lparr>searchRegex := rx', prevMatchStartIndex := int (index m),
                              prevMatchLength := length (match0 m)\<rparr>)
             else Searcher_next
                    (s\<lparr>searchRegex := rx', prevMatchStartIndex := int (index m),
                       prevMatchLength := length (match0 m)\<rparr>) text))"
  by pat_completeness auto

lemma RegExp_exec_Some:
  assumes "RegExp_exec rx text = (Some m, rx')"
  shows "lastIndex rx \<le> index m" and "index m + length (match0 m) \<le> length text"
    and "lastIndex rx' = index m + length (match0 m)"
    and "rx_matcher rx' = rx_matcher rx" and "multiline rx' = multiline rx"
    and "\<exists>l g. rx_matcher rx text (index m) = Some (l, g)
               \<and> match0 m = take l (drop (index m) text) \<and> captures m = g"
    and "\<forall>q. lastIndex rx \<le> q \<and> q < index m \<longrightarrow> rx_matcher rx text q = None"
proof -
  obtain p where p: "List.find (\<lambda>p. rx_matcher rx text p \<noteq> None)
                       [lastIndex rx ..< Suc (length text)] = Some p"
    using assms by (auto simp: RegExp_exec_def split: option.splits)
  then obtain l g where lg: "rx_matcher rx text p = Some (l, g)"
    using assms by (auto simp: RegExp_exec_def split: option.splits)
  from assms p lg have m: "m = \<lparr>index = p, match0 = take l (drop p text), captures = g\<rparr>"
    and rx': "rx' = rx\<lparr>lastIndex := p + length (take l (drop p text))\<rparr>"
    by (auto simp: RegExp_exec_def)
  from p obtain i where i: "i < length [lastIndex rx ..< Suc (length text)]"
    "[lastIndex rx ..< Suc (length text)] ! i = p"
    "\<forall>j<i. \<not> (rx_matcher rx text ([lastIndex rx ..< Suc (length text)] ! j) \<noteq> None)"
    unfolding find_Some_iff by blast
  from i have pr: "lastIndex rx \<le> p" "p \<le> length text" and pi: "p = lastIndex rx + i"
    by (auto simp del: upt_Suc)
  show "lastIndex rx \<le> index m" using pr m by simp
  show "index m + length (match0 m) \<le> length text" using pr m by simp
  show "lastIndex rx' = index m + length (match0 m)" using m rx' by simp
  show "rx_matcher rx' = rx_matcher rx" using rx' by simp
  show "multiline rx' = multiline rx" using rx' by simp
  show "\<exists>l g. rx_matcher rx text (index m) = Some (l, g)
               \<and> match0 m = take l (drop (index m) text) \<and> captures m = g"
    using lg m by simp
  show "\<forall>q. lastIndex rx \<le> q \<and> q < index m \<longrightarrow> rx_matcher rx text q = None"
  proof (intro allI impI)
    fix q assume q: "lastIndex rx \<le> q \<and> q < index m"
    then have "q - lastIndex rx < i" using pi m by auto
    with i(3) have "\<not> (rx_matcher rx text ([lastIndex rx ..< Suc (length text)] ! (q - lastIndex rx)) \<noteq> None)"
      by blast
    moreover have "[lastIndex rx ..< Suc (length text)] ! (q - lastIndex rx) = q"
      using q pr m by (simp del: upt_Suc)
    ultimately show "rx_matcher rx text q = None"
      by (cases "rx_matcher rx text q") (auto simp del: upt_Suc)
  qed
qed

termination Searcher_next
proof (relation "measure (\<lambda>(s, text). scan_measure text s)", goal_cases)
  case 1
  show ?case by simp
next
  case (2 s t x1 rx' m)
  from 2 have ex: "RegExp_exec (searchRegex s) t = (Some m, rx')" by simp
  note E = RegExp_exec_Some[OF ex]
  from 2 have ne: "\<not> (int (index m) = prevMatchStartIndex s \<and> length (match0 m) = prevMatchLength s)"
    by simp
  show ?case
  proof (cases "index m + length (match0 m) = lastIndex (searchRegex s)")
    case True
    with E(1) have "index m = lastIndex (searchRegex s)" "length (match0 m) = 0" by arith+
    with ne E(3) True show ?thesis by (auto simp: scan_measure_def)
  next
    case False
    with E(1) have "lastIndex (searchRegex s) < index m + length (match0 m)" by simp
    with E(2,3) show ?thesis by (auto simp: scan_measure_def)
  qed
qed

declare Searcher_next.simps [simp del]

text \<open>
  What holds of a searcher after \<^verbatim>\<open>reset\<close> and after every match it has seen on a
  text: the remembered match, if any, is the pattern's match at its position in that
  text, and \<^verbatim>\<open>lastIndex\<close> is its end.
\<close>

definition scan_inv :: "string \<Rightarrow> Searcher \<Rightarrow> bool" where
  "scan_inv text s \<longleftrightarrow>
     (prevMatchStartIndex s = -1 \<and> prevMatchLength s = 0)
     \<or> (\<exists>p l g. prevMatchStartIndex s = int p \<and> p \<le> length text
            \<and> rx_matcher (searchRegex s) text p = Some (l, g)
            \<and> prevMatchLength s = length (take l (drop p text))
            \<and> lastIndex (searchRegex s) = p + prevMatchLength s)"

text \<open>The searcher after a raw match has been remembered (lines 501-502).\<close>

definition record_match :: "Searcher \<Rightarrow> RegExp \<Rightarrow> RegExpExecArray \<Rightarrow> Searcher" where
  "record_match s rx' m =
     s\<lparr>searchRegex := rx', prevMatchStartIndex := int (index m),
       prevMatchLength := length (match0 m)\<rparr>"

lemma exec_step_measure:
  assumes ex: "RegExp_exec (searchRegex s) text = (Some m, rx')"
    and ne: "\<not> (int (index m) = prevMatchStartIndex s \<and> length (match0 m) = prevMatchLength s)"
  shows "scan_measure text (record_match s rx' m) < scan_measure text s"
proof -
  note E = RegExp_exec_Some[OF ex]
  show ?thesis
  proof (cases "index m + length (match0 m) = lastIndex (searchRegex s)")
    case True
    with E(1) have "index m = lastIndex (searchRegex s)" "length (match0 m) = 0" by arith+
    with ne E(3) True show ?thesis by (auto simp: scan_measure_def record_match_def)
  next
    case False
    with E(1) have "lastIndex (searchRegex s) < index m + length (match0 m)" by simp
    with E(2,3) show ?thesis by (auto simp: scan_measure_def record_match_def)
  qed
qed

lemma exec_step_inv2:
  assumes ex: "RegExp_exec (searchRegex s) text = (Some m, rx')"
  shows "scan_inv text (record_match s rx' m)"
proof -
  note E = RegExp_exec_Some[OF ex]
  from E(6) obtain l g where lg: "rx_matcher (searchRegex s) text (index m) = Some (l, g)"
    "match0 m = take l (drop (index m) text)" by blast
  from E(2) have "index m \<le> length text" by simp
  then show "scan_inv text (record_match s rx' m)"
    unfolding scan_inv_def record_match_def using lg E(3,4) by auto
qed

lemma exec_step_inv:
  assumes ex: "RegExp_exec (searchRegex s) text = (Some m, rx')"
    and ne: "\<not> (int (index m) = prevMatchStartIndex s \<and> length (match0 m) = prevMatchLength s)"
    and inv: "scan_inv text s"
  shows "prevMatchStartIndex s < int (index m)" and "scan_inv text (record_match s rx' m)"
proof -
  note E = RegExp_exec_Some[OF ex]
  from E(6) obtain l g where lg: "rx_matcher (searchRegex s) text (index m) = Some (l, g)"
    "match0 m = take l (drop (index m) text)" by blast
  show "scan_inv text (record_match s rx' m)" by (rule exec_step_inv2[OF ex])
  from inv show "prevMatchStartIndex s < int (index m)"
    unfolding scan_inv_def
  proof (elim disjE exE conjE)
    assume "prevMatchStartIndex s = - 1" then show ?thesis by simp
  next
    fix p l0 g0
    assume p: "prevMatchStartIndex s = int p"
      "rx_matcher (searchRegex s) text p = Some (l0, g0)"
      "prevMatchLength s = length (take l0 (drop p text))"
      "lastIndex (searchRegex s) = p + prevMatchLength s"
    show ?thesis
    proof (rule ccontr)
      assume "\<not> prevMatchStartIndex s < int (index m)"
      with p(1,4) E(1) have eq: "index m = p" and z: "prevMatchLength s = 0" by auto
      with lg p(2,3) have "length (match0 m) = prevMatchLength s" by simp
      with eq p(1) ne show False by simp
    qed
  qed
qed

lemma Searcher_next_unfold:
  "Searcher_next s text =
     (if prevMatchStartIndex s + int (prevMatchLength s) = int (length text) then (None, s)
      else
        (case RegExp_exec (searchRegex s) text of
           (None, rx') \<Rightarrow> (None, s\<lparr>searchRegex := rx'\<rparr>)
         | (Some m, rx') \<Rightarrow>
             if int (index m) = prevMatchStartIndex s \<and> length (match0 m) = prevMatchLength s
             then (None, s\<lparr>searchRegex := rx'\<rparr>)
             else if acceptsMatch (wordSeparators s) text (length text)
                       (index m) (length (match0 m))
             then (Some m, record_match s rx' m)
             else Searcher_next (record_match s rx' m) text))"
  by (subst Searcher_next.simps) (simp add: record_match_def split: prod.splits option.splits)


lemma Searcher_next_SomeE:
  assumes "Searcher_next s t = (Some m, s')"
  obtains m1 rx' where
    "prevMatchStartIndex s + int (prevMatchLength s) \<noteq> int (length t)"
    "RegExp_exec (searchRegex s) t = (Some m1, rx')"
    "\<not> (int (index m1) = prevMatchStartIndex s \<and> length (match0 m1) = prevMatchLength s)"
    "acceptsMatch (wordSeparators s) t (length t) (index m1) (length (match0 m1))
       \<Longrightarrow> m = m1 \<and> s' = record_match s rx' m1"
    "\<not> acceptsMatch (wordSeparators s) t (length t) (index m1) (length (match0 m1))
       \<Longrightarrow> Searcher_next (record_match s rx' m1) t = (Some m, s')"
proof -
  from assms have ne: "prevMatchStartIndex s + int (prevMatchLength s) \<noteq> int (length t)"
    by (subst (asm) Searcher_next_unfold) (simp split: if_splits)
  with assms obtain m1 rx' where ex: "RegExp_exec (searchRegex s) t = (Some m1, rx')"
    by (subst (asm) Searcher_next_unfold) (cases "RegExp_exec (searchRegex s) t", cases "fst (RegExp_exec (searchRegex s) t)", simp_all)
  from assms ne ex have ns: "\<not> (int (index m1) = prevMatchStartIndex s \<and> length (match0 m1) = prevMatchLength s)"
    by (subst (asm) Searcher_next_unfold) (simp split: if_splits)
  from assms ne ex ns have
    "(if acceptsMatch (wordSeparators s) t (length t) (index m1) (length (match0 m1))
      then (Some m1, record_match s rx' m1) else Searcher_next (record_match s rx' m1) t) = (Some m, s')"
    by (subst (asm) Searcher_next_unfold) simp
  then have a: "acceptsMatch (wordSeparators s) t (length t) (index m1) (length (match0 m1))
       \<Longrightarrow> m = m1 \<and> s' = record_match s rx' m1"
    and b: "\<not> acceptsMatch (wordSeparators s) t (length t) (index m1) (length (match0 m1))
       \<Longrightarrow> Searcher_next (record_match s rx' m1) t = (Some m, s')"
    by (auto split: if_splits)
  from that[OF ne ex ns a b] show thesis by blast
qed


lemma Searcher_next_Some:
  "Searcher_next s t = (Some m, s') \<Longrightarrow>
     prevMatchStartIndex s' = int (index m) \<and> prevMatchLength s' = length (match0 m)
     \<and> lastIndex (searchRegex s') = index m + length (match0 m)
     \<and> index m + length (match0 m) \<le> length t
     \<and> lastIndex (searchRegex s) \<le> index m
     \<and> rx_matcher (searchRegex s') = rx_matcher (searchRegex s)
     \<and> multiline (searchRegex s') = multiline (searchRegex s)
     \<and> wordSeparators s' = wordSeparators s
     \<and> acceptsMatch (wordSeparators s) t (length t) (index m) (length (match0 m))
     \<and> scan_measure t s' < scan_measure t s
     \<and> (\<exists>l g. rx_matcher (searchRegex s) t (index m) = Some (l, g)
               \<and> match0 m = take l (drop (index m) t) \<and> captures m = g)"
proof (induction s t arbitrary: m s' rule: Searcher_next.induct)
  case (1 s t)
  from "1.prems" show ?case
  proof (rule Searcher_next_SomeE)
    fix m1 rx'
    assume ne: "prevMatchStartIndex s + int (prevMatchLength s) \<noteq> int (length t)"
      and ex: "RegExp_exec (searchRegex s) t = (Some m1, rx')"
      and ns: "\<not> (int (index m1) = prevMatchStartIndex s \<and> length (match0 m1) = prevMatchLength s)"
      and a: "acceptsMatch (wordSeparators s) t (length t) (index m1) (length (match0 m1))
       \<Longrightarrow> m = m1 \<and> s' = record_match s rx' m1"
      and b: "\<not> acceptsMatch (wordSeparators s) t (length t) (index m1) (length (match0 m1))
       \<Longrightarrow> Searcher_next (record_match s rx' m1) t = (Some m, s')"
    note E = RegExp_exec_Some[OF ex]
    note M = exec_step_measure[OF ex ns]
    show ?thesis
    proof (cases "acceptsMatch (wordSeparators s) t (length t) (index m1) (length (match0 m1))")
      case True
      with a have "m = m1" "s' = record_match s rx' m1" by simp_all
      with E(1-6) M True show ?thesis by (simp add: record_match_def)
    next
      case False
      from b[OF False] have rec: "Searcher_next (s\<lparr>searchRegex := rx', prevMatchStartIndex := int (index m1),
                       prevMatchLength := length (match0 m1)\<rparr>) t = (Some m, s')"
        by (simp add: record_match_def)
      note IH = "1.IH"[OF ne ex[symmetric] refl ns False rec]
      from IH E(1-5) M show ?thesis by (simp add: record_match_def)
    qed
  qed
qed


lemma Searcher_next_inv:
  "Searcher_next s t = (Some m, s') \<Longrightarrow> scan_inv t s \<Longrightarrow>
     prevMatchStartIndex s < int (index m) \<and> scan_inv t s'"
proof (induction s t arbitrary: m s' rule: Searcher_next.induct)
  case (1 s t)
  from "1.prems"(1) show ?case
  proof (rule Searcher_next_SomeE)
    fix m1 rx'
    assume ne: "prevMatchStartIndex s + int (prevMatchLength s) \<noteq> int (length t)"
      and ex: "RegExp_exec (searchRegex s) t = (Some m1, rx')"
      and ns: "\<not> (int (index m1) = prevMatchStartIndex s \<and> length (match0 m1) = prevMatchLength s)"
      and a: "acceptsMatch (wordSeparators s) t (length t) (index m1) (length (match0 m1))
       \<Longrightarrow> m = m1 \<and> s' = record_match s rx' m1"
      and b: "\<not> acceptsMatch (wordSeparators s) t (length t) (index m1) (length (match0 m1))
       \<Longrightarrow> Searcher_next (record_match s rx' m1) t = (Some m, s')"
    note I = exec_step_inv[OF ex ns "1.prems"(2)]
    show ?thesis
    proof (cases "acceptsMatch (wordSeparators s) t (length t) (index m1) (length (match0 m1))")
      case True
      with a I show ?thesis by simp
    next
      case False
      from b[OF False] have rec: "Searcher_next (s\<lparr>searchRegex := rx', prevMatchStartIndex := int (index m1),
                       prevMatchLength := length (match0 m1)\<rparr>) t = (Some m, s')"
        by (simp add: record_match_def)
      from I(2) have inv': "scan_inv t (s\<lparr>searchRegex := rx', prevMatchStartIndex := int (index m1),
                       prevMatchLength := length (match0 m1)\<rparr>)"
        by (simp add: record_match_def)
      note IH = "1.IH"[OF ne ex[symmetric] refl ns False rec inv']
      from IH I(1) show ?thesis by simp
    qed
  qed
qed

lemma scan_inv_reset: "scan_inv t (Searcher_reset s c)"
  by (simp add: scan_inv_def Searcher_reset_def)

text \<open>
  The matches that a loop \<^verbatim>\<open>while ((m = searcher.next(text)))\<close> sees, in order, until
  \<^verbatim>\<open>next\<close> returns null.
\<close>

function scan_all :: "Searcher \<Rightarrow> string \<Rightarrow> RegExpExecArray list" where
  "scan_all s t =
     (case Searcher_next s t of
        (None, s') \<Rightarrow> []
      | (Some m, s') \<Rightarrow> m # scan_all s' t)"
  by pat_completeness auto
termination
proof (relation "measure (\<lambda>(s, t). scan_measure t s)", goal_cases)
  case 1 show ?case by simp
next
  case (2 s t x1 s' m)
  then have "Searcher_next s t = (Some m, s')" by simp
  from Searcher_next_Some[OF this] show ?case by simp
qed

declare scan_all.simps [simp del]


text \<open>
  The result of call number \<open>k + 1\<close> of a loop that calls \<^verbatim>\<open>next\<close> until it returns
  null (and null when the loop has stopped before).
\<close>

fun nth_next :: "nat \<Rightarrow> Searcher \<Rightarrow> string \<Rightarrow> RegExpExecArray option \<times> Searcher" where
  "nth_next 0 s t = Searcher_next s t"
| "nth_next (Suc k) s t =
     (case Searcher_next s t of
        (None, s') \<Rightarrow> (None, s')
      | (Some m, s') \<Rightarrow> nth_next k s' t)"

text \<open>
  Modelled from the spec: the pattern of a request that is not a regex is escaped "so
  it matches literally" (section 4.1). This is the matcher of such a pattern when case
  matters: it matches where the string itself occurs.
\<close>

definition literal_matcher :: "string \<Rightarrow> matcher" where
  "literal_matcher pat text p =
     (if take (length pat) (drop p text) = pat then Some (length pat, []) else None)"

definition Space :: char where "Space = CHR 0x20"
definition Tab :: char where "Tab = CHR 0x09"

text \<open>
  Modelled from the spec: the classifier built by \<^verbatim>\<open>getMapForWordSeparators\<close>
  (\<^verbatim>\<open>wordCharacterClassifier\<close> is not among the sources). Section 2: it maps a character
  to Regular, Whitespace or Separator given the set of separator characters; space and
  tab are the whitespace. It serves the examples.
\<close>

definition classifier_of_separators :: "string \<Rightarrow> WordCharacterClassifier" where
  "classifier_of_separators seps c =
     (case c of
        None \<Rightarrow> Regular
      | Some ch \<Rightarrow>
          if ch = Space \<or> ch = Tab then Whitespace
          else if ch \<in> set seps then WordSeparator
          else Regular)"

lemma Searcher_next_at_end:
  "prevMatchStartIndex s + int (prevMatchLength s) = int (length t) \<Longrightarrow> Searcher_next s t = (None, s)"
  by (subst Searcher_next_unfold) simp

lemma nth_next_at_end:
  "prevMatchStartIndex s + int (prevMatchLength s) = int (length t) \<Longrightarrow> nth_next k s t = (None, s)"
  by (induction k) (simp_all add: Searcher_next_at_end)

lemma Searcher_next_rejected:
  assumes "prevMatchStartIndex s + int (prevMatchLength s) \<noteq> int (length t)"
    and "RegExp_exec (searchRegex s) t = (Some m, rx')"
    and "\<not> (int (index m) = prevMatchStartIndex s \<and> length (match0 m) = prevMatchLength s)"
  shows "Searcher_next s t =
           (if acceptsMatch (wordSeparators s) t (length t) (index m) (length (match0 m))
            then (Some m, record_match s rx' m)
            else Searcher_next (record_match s rx' m) t)"
  using assms by (subst Searcher_next_unfold) auto

lemma Searcher_next_repeat:
  assumes "prevMatchStartIndex s + int (prevMatchLength s) \<noteq> int (length t)"
    and "RegExp_exec (searchRegex s) t = (Some m, rx')"
    and "int (index m) = prevMatchStartIndex s" "length (match0 m) = prevMatchLength s"
  shows "Searcher_next s t = (None, s\<lparr>searchRegex := rx'\<rparr>)"
  using assms by (subst Searcher_next_unfold) simp

lemma Searcher_next_Some_inv2:
  assumes "Searcher_next s t = (Some m, s')"
  shows "scan_inv t s'"
  using assms
proof (induction s t arbitrary: m s' rule: Searcher_next.induct)
  case (1 s t)
  from "1.prems"(1) show ?case
  proof (rule Searcher_next_SomeE)
    fix m1 rx'
    assume ne: "prevMatchStartIndex s + int (prevMatchLength s) \<noteq> int (length t)"
      and ex: "RegExp_exec (searchRegex s) t = (Some m1, rx')"
      and ns: "\<not> (int (index m1) = prevMatchStartIndex s \<and> length (match0 m1) = prevMatchLength s)"
      and a: "acceptsMatch (wordSeparators s) t (length t) (index m1) (length (match0 m1))
       \<Longrightarrow> m = m1 \<and> s' = record_match s rx' m1"
      and b: "\<not> acceptsMatch (wordSeparators s) t (length t) (index m1) (length (match0 m1))
       \<Longrightarrow> Searcher_next (record_match s rx' m1) t = (Some m, s')"
    note I = exec_step_inv2[OF ex]
    show ?thesis
    proof (cases "acceptsMatch (wordSeparators s) t (length t) (index m1) (length (match0 m1))")
      case True
      with a I show ?thesis by simp
    next
      case False
      from b[OF False] have rec: "Searcher_next (s\<lparr>searchRegex := rx', prevMatchStartIndex := int (index m1),
                       prevMatchLength := length (match0 m1)\<rparr>) t = (Some m, s')"
        by (simp add: record_match_def)
      from "1.IH"[OF ne ex[symmetric] refl ns False rec] show ?thesis .
    qed
  qed
qed

lemma nth_next_measure:
  "scan_measure t s \<le> k \<Longrightarrow> fst (nth_next k s t) = None"
proof (induction k arbitrary: s)
  case 0
  show ?case
  proof (cases "Searcher_next s t")
    case (Pair r s')
    show ?thesis
    proof (cases r)
      case None with Pair show ?thesis by simp
    next
      case (Some m)
      with Pair Searcher_next_Some[of s t m s'] 0 show ?thesis by simp
    qed
  qed
next
  case (Suc k)
  show ?case
  proof (cases "Searcher_next s t")
    case (Pair r s')
    show ?thesis
    proof (cases r)
      case None with Pair show ?thesis by simp
    next
      case (Some m)
      with Pair Searcher_next_Some[of s t m s'] Suc.prems
      have "scan_measure t s' \<le> k" by simp
      from Suc.IH[OF this] Pair Some show ?thesis by simp
    qed
  qed
qed

lemma scan_all_Nil: "fst (Searcher_next s t) = None \<Longrightarrow> scan_all s t = []"
  by (subst scan_all.simps) (cases "Searcher_next s t", auto split: option.splits)

lemma scan_all_Cons: "Searcher_next s t = (Some m, s') \<Longrightarrow> scan_all s t = m # scan_all s' t"
  by (subst scan_all.simps) simp

lemma scan_all_length:
  "scan_inv t s \<Longrightarrow> int (length (scan_all s t)) \<le> int (length t) - prevMatchStartIndex s"
proof (induction s t rule: scan_all.induct)
  case (1 s t)
  show ?case
  proof (cases "Searcher_next s t")
    case (Pair r s')
    show ?thesis
    proof (cases r)
      case None
      with Pair have "scan_all s t = []" by (simp add: scan_all_Nil)
      moreover from "1.prems" have "prevMatchStartIndex s \<le> int (length t)"
        by (auto simp: scan_inv_def)
      ultimately show ?thesis by simp
    next
      case (Some m)
      with Pair have nx: "Searcher_next s t = (Some m, s')" by simp
      from Searcher_next_inv[OF nx "1.prems"] have lt: "prevMatchStartIndex s < int (index m)"
        and inv': "scan_inv t s'" by simp_all
      from Searcher_next_Some[OF nx] have p': "prevMatchStartIndex s' = int (index m)" by simp
      from "1.IH"[OF nx[symmetric] refl inv'] p' lt scan_all_Cons[OF nx]
      show ?thesis by simp
    qed
  qed
qed






subsection \<open>Positions, ranges and the text buffer\<close>

record Position =
  lineNumber :: nat
  column :: nat

record Range =
  startLineNumber :: nat
  startColumn :: nat
  endLineNumber :: nat
  endColumn :: nat

definition new_Range :: "nat \<Rightarrow> nat \<Rightarrow> nat \<Rightarrow> nat \<Rightarrow> Range" where
  "new_Range sl sc el ec =
     \<lparr>startLineNumber = sl, startColumn = sc, endLineNumber = el, endColumn = ec\<rparr>"

definition new_Position :: "nat \<Rightarrow> nat \<Rightarrow> Position" where
  "new_Position l c = \<lparr>lineNumber = l, column = c\<rparr>"

definition getStartPosition :: "Range \<Rightarrow> Position" where
  "getStartPosition r = new_Position (startLineNumber r) (startColumn r)"

record FindMatch =
  fm_range :: Range
  fm_matches :: "string list option"

datatype EndOfLinePreference = TextDefined | LF | CRLF

text \<open>
  The class \<^verbatim>\<open>TextModel\<close> (\<^verbatim>\<open>vs/editor/common/model/textModel\<close>) is the external
  buffer; the search code reads it through these seven methods only, so a buffer is
  taken as the record of them.
\<close>

record TextModel =
  getLineCount :: nat
  getLineContent :: "nat \<Rightarrow> string"
  getLineMaxColumn :: "nat \<Rightarrow> nat"
  getEOL :: string
  getOffsetAt :: "Position \<Rightarrow> nat"
  getPositionAt :: "nat \<Rightarrow> Position"
  getValueInRange :: "Range \<Rightarrow> EndOfLinePreference \<Rightarrow> string"

subsection \<open>Strings and arrays of the language\<close>

text \<open>\<^verbatim>\<open>s.substring(a, b)\<close>: both ends are cut to the length, and swapped when \<open>a > b\<close>.\<close>

definition substring :: "string \<Rightarrow> nat \<Rightarrow> nat \<Rightarrow> string" where
  "substring s a b =
     (let a' = min a (length s); b' = min b (length s)
      in take (max a' b' - min a' b') (drop (min a' b') s))"

text \<open>\<^verbatim>\<open>s.substring(a)\<close>.\<close>

definition substringFrom :: "string \<Rightarrow> nat \<Rightarrow> string" where
  "substringFrom s a = drop a s"

text \<open>
  \<^verbatim>\<open>text.indexOf(searchString, position)\<close>: the first index from the position (cut to
  \<open>0 .. length\<close>) where the search string occurs; \<open>None\<close> stands for -1.
\<close>

definition indexOf :: "string \<Rightarrow> string \<Rightarrow> int \<Rightarrow> nat option" where
  "indexOf text searchString position =
     List.find (\<lambda>k. take (length searchString) (drop k text) = searchString)
       [min (nat position) (length text) ..< Suc (length text)]"

text \<open>
  \<^verbatim>\<open>result[resultLen++] = v\<close>. Every array here is filled from index 0 upwards, so the
  index is at most the length and the store overwrites or appends.
\<close>

definition array_store :: "'a list \<Rightarrow> nat \<Rightarrow> 'a \<Rightarrow> 'a list" where
  "array_store xs i v = (if i < length xs then xs[i := v] else xs @ [v])"

subsection \<open>SearchParams and SearchData\<close>

record SearchParams =
  searchString :: string
  isRegex :: bool
  matchCase :: bool
  sp_wordSeparators :: string

record SearchData =
  regex :: RegExp
  sd_wordSeparators :: "WordCharacterClassifier option"
  simpleSearch :: "string option"

fun isMultilineRegexSource_from :: "string \<Rightarrow> bool" where
  "isMultilineRegexSource_from [] = False"
| "isMultilineRegexSource_from [c] = False"
| "isMultilineRegexSource_from (c # d # rest) =
     (if c = Backslash
      then (if d = CHR ''n'' \<or> d = CHR ''r'' then True else isMultilineRegexSource_from rest)
      else isMultilineRegexSource_from (d # rest))"

definition isMultilineRegexSource :: "string \<Rightarrow> bool" where
  "isMultilineRegexSource source =
     (if source = [] then False else isMultilineRegexSource_from source)"

record RegExpOptions =
  opt_matchCase :: bool
  opt_wholeWord :: bool
  opt_multiline :: bool
  opt_global :: bool

text \<open>
  What the search code takes from outside this file: the pattern compiler of the
  regular expression engine (\<open>None\<close> for a pattern it rejects), the classifier built
  from a string of separators, and the case mappings of strings.
\<close>

record Env =
  compilePattern :: "string \<Rightarrow> bool \<Rightarrow> bool \<Rightarrow> bool \<Rightarrow> matcher option"
  getMapForWordSeparators :: "string \<Rightarrow> WordCharacterClassifier"
  toLowerCase :: "string \<Rightarrow> string"
  toUpperCase :: "string \<Rightarrow> string"

text \<open>
  Modelled from the spec: \<^verbatim>\<open>strings.createRegExp\<close> (\<^verbatim>\<open>vs/base/common/strings\<close>) is not
  among the sources. Section 4.1: the expression is compiled from the pattern (as
  authored for a regex request, escaped to match literally otherwise) with
  case-sensitivity per \<^verbatim>\<open>matchCase\<close>, always global, and in multiline mode exactly when
  the multiline option is set; a pattern that does not compile gives no expression.
\<close>

definition createRegExp :: "Env \<Rightarrow> string \<Rightarrow> bool \<Rightarrow> RegExpOptions \<Rightarrow> RegExp option" where
  "createRegExp env source regexRequest options =
     (case compilePattern env source regexRequest (opt_matchCase options) (opt_multiline options) of
        None \<Rightarrow> None
      | Some mt \<Rightarrow> Some \<lparr>rx_matcher = mt, multiline = opt_multiline options, lastIndex = 0\<rparr>)"

definition parseSearchRequest :: "Env \<Rightarrow> SearchParams \<Rightarrow> SearchData option" where
  "parseSearchRequest env p =
     (if searchString p = [] then None
      else
        let isMultiline =
              (if isRegex p then isMultilineRegexSource (searchString p)
               else LineFeed \<in> set (searchString p))
        in case createRegExp env (searchString p) (isRegex p)
                  \<lparr>opt_matchCase = matchCase p, opt_wholeWord = False,
                   opt_multiline = isMultiline, opt_global = True\<rparr> of
             None \<Rightarrow> None
           | Some rx \<Rightarrow>
               let canUseSimpleSearch = (\<not> isRegex p \<and> \<not> isMultiline);
                   canUseSimpleSearch =
                     (if canUseSimpleSearch
                         \<and> toLowerCase env (searchString p) \<noteq> toUpperCase env (searchString p)
                      then matchCase p else canUseSimpleSearch)
               in Some \<lparr>regex = rx,
                        sd_wordSeparators =
                          (if sp_wordSeparators p \<noteq> []
                           then Some (getMapForWordSeparators env (sp_wordSeparators p))
                           else None),
                        simpleSearch =
                          (if canUseSimpleSearch then Some (searchString p) else None)\<rparr>)"

definition createFindMatch :: "Range \<Rightarrow> RegExpExecArray \<Rightarrow> bool \<Rightarrow> FindMatch" where
  "createFindMatch rng rawMatches captureMatches =
     (if \<not> captureMatches then \<lparr>fm_range = rng, fm_matches = None\<rparr>
      else \<lparr>fm_range = rng, fm_matches = Some (match0 rawMatches # captures rawMatches)\<rparr>)"

subsection \<open>TextModelSearch\<close>

definition LIMIT_FIND_COUNT :: int where "LIMIT_FIND_COUNT = 999"

definition CRLF_EOL :: string where "CRLF_EOL = [CarriageReturn, LineFeed]"

definition getMultilineMatchRange ::
  "TextModel \<Rightarrow> nat \<Rightarrow> string \<Rightarrow> nat \<Rightarrow> string \<Rightarrow> Range" where
  "getMultilineMatchRange model deltaOffset text matchIndex m0 =
     (let startOffset =
            (if getEOL model = CRLF_EOL
             then let lineFeedCountBeforeMatch =
                        fold (\<lambda>i n. if charCodeAt text i = Some LineFeed then n + 1 else n)
                          [0 ..< matchIndex] 0
                  in deltaOffset + matchIndex + lineFeedCountBeforeMatch
             else deltaOffset + matchIndex);
          endOffset =
            (if getEOL model = CRLF_EOL
             then let lineFeedCountInMatch =
                        fold (\<lambda>i n. if charCodeAt text (i + matchIndex) = Some LineFeed
                                     then n + 1 else n)
                          [0 ..< length m0] 0
                  in startOffset + length m0 + lineFeedCountInMatch
             else startOffset + length m0);
          startPosition = getPositionAt model startOffset;
          endPosition = getPositionAt model endOffset
      in new_Range (lineNumber startPosition) (column startPosition)
           (lineNumber endPosition) (column endPosition))"

function doFindMatchesMultiline_loop ::
  "TextModel \<Rightarrow> nat \<Rightarrow> string \<Rightarrow> Searcher \<Rightarrow> bool \<Rightarrow> int \<Rightarrow> FindMatch list \<Rightarrow> nat
     \<Rightarrow> FindMatch list \<times> Searcher" where
  "doFindMatchesMultiline_loop model deltaOffset text searcher captureMatches limitResultCount
       result counter =
     (case Searcher_next searcher text of
        (None, searcher') \<Rightarrow> (result, searcher')
      | (Some m, searcher') \<Rightarrow>
          if int (counter + 1) \<ge> limitResultCount
          then (array_store result counter
                  (createFindMatch
                     (getMultilineMatchRange model deltaOffset text (index m) (match0 m))
                     m captureMatches),
                searcher')
          else doFindMatchesMultiline_loop model deltaOffset text searcher' captureMatches
                 limitResultCount
                 (array_store result counter
                    (createFindMatch
                       (getMultilineMatchRange model deltaOffset text (index m) (match0 m))
                       m captureMatches))
                 (counter + 1))"
  by pat_completeness auto
termination
proof (relation "measure (\<lambda>(model, d, t, s, c, l, r, n). scan_measure t s)", goal_cases)
  case 1 show ?case by simp
next
  case (2 model d t s c l r n x1 s' m)
  then have "Searcher_next s t = (Some m, s')" by simp
  from Searcher_next_Some[OF this] show ?case by simp
qed

declare doFindMatchesMultiline_loop.simps [simp del]

definition doFindMatchesMultiline ::
  "TextModel \<Rightarrow> Range \<Rightarrow> Searcher \<Rightarrow> bool \<Rightarrow> int \<Rightarrow> FindMatch list \<times> Searcher" where
  "doFindMatchesMultiline model searchRange searcher captureMatches limitResultCount =
     (let deltaOffset = getOffsetAt model (getStartPosition searchRange);
          text = getValueInRange model searchRange LF
      in doFindMatchesMultiline_loop model deltaOffset text (Searcher_reset searcher 0)
           captureMatches limitResultCount [] 0)"


lemma indexOf_Some:
  assumes "indexOf t pat pos = Some k"
  shows "nat pos \<le> k \<or> length t \<le> k" and "k \<le> length t"
    and "take (length pat) (drop k t) = pat"
proof -
  from assms obtain i where i: "i < length [min (nat pos) (length t) ..< Suc (length t)]"
    "[min (nat pos) (length t) ..< Suc (length t)] ! i = k"
    "take (length pat) (drop k t) = pat"
    unfolding indexOf_def find_Some_iff by blast
  from i(1,2) have "k = min (nat pos) (length t) + i" "k < Suc (length t)"
    by (auto simp del: upt_Suc)
  then show "nat pos \<le> k \<or> length t \<le> k" and "k \<le> length t" by auto
  from i(3) show "take (length pat) (drop k t) = pat" .
qed

lemma indexOf_Some_progress:
  assumes "indexOf t pat (lastMatchIndex + int (length pat)) = Some k" and "pat \<noteq> []"
  shows "lastMatchIndex < int k" and "k + length pat \<le> length t"
proof -
  note I = indexOf_Some[OF assms(1)]
  from arg_cong[OF I(3), of length] have "min (length pat) (length t - k) = length pat"
    by simp
  with assms(2) show le: "k + length pat \<le> length t" by (cases pat) auto
  from assms(2) have "0 < length pat" by simp
  with le I(1) show "lastMatchIndex < int k" by arith
qed

text \<open>
  The loop of the literal fast path (lines 240-248). It is entered only when
  \<^verbatim>\<open>searchData.simpleSearch\<close> is truthy, that is non-empty (line 235); the loop of the
  model carries that test so that it is total.
\<close>

function findMatchesInLine_simple ::
  "WordCharacterClassifier option \<Rightarrow> string \<Rightarrow> string \<Rightarrow> nat \<Rightarrow> nat \<Rightarrow> int \<Rightarrow> int
     \<Rightarrow> nat \<Rightarrow> FindMatch list \<Rightarrow> nat \<times> FindMatch list" where
  "findMatchesInLine_simple ws text pat lineNo deltaOffset limitResultCount lastMatchIndex
       resultLen result =
     (if pat = [] then (resultLen, result)
      else
        (case indexOf text pat (lastMatchIndex + int (length pat)) of
           None \<Rightarrow> (resultLen, result)
         | Some k \<Rightarrow>
             if acceptsMatch ws text (length text) k (length pat)
             then
               (if int (resultLen + 1) \<ge> limitResultCount
                then (resultLen + 1,
                      array_store result resultLen
                        \<lparr>fm_range = new_Range lineNo (k + 1 + deltaOffset)
                                      lineNo (k + 1 + length pat + deltaOffset),
                         fm_matches = None\<rparr>)
                else findMatchesInLine_simple ws text pat lineNo deltaOffset
                       limitResultCount (int k) (resultLen + 1)
                       (array_store result resultLen
                          \<lparr>fm_range = new_Range lineNo (k + 1 + deltaOffset)
                                        lineNo (k + 1 + length pat + deltaOffset),
                           fm_matches = None\<rparr>))
             else findMatchesInLine_simple ws text pat lineNo deltaOffset
                    limitResultCount (int k) resultLen result))"
  by pat_completeness auto
termination
proof (relation "measure (\<lambda>(ws, t, pat, ln, d, l, lmi, rl, r). nat (int (length t) + 1 - lmi))",
       goal_cases)
  case 1 show ?case by simp
next
  case (2 ws t pat ln d l lmi rl r k)
  from indexOf_Some_progress[OF 2(2) 2(1)] show ?case by auto
next
  case (3 ws t pat ln d l lmi rl r k)
  from indexOf_Some_progress[OF 3(2) 3(1)] show ?case by auto
qed

declare findMatchesInLine_simple.simps [simp del]

text \<open>The \<^verbatim>\<open>do ... while (m)\<close> loop of the regex path (lines 256-264).\<close>

function findMatchesInLine_regex ::
  "Searcher \<Rightarrow> string \<Rightarrow> nat \<Rightarrow> nat \<Rightarrow> bool \<Rightarrow> int \<Rightarrow> nat \<Rightarrow> FindMatch list
     \<Rightarrow> nat \<times> FindMatch list" where
  "findMatchesInLine_regex searcher text lineNo deltaOffset captureMatches limitResultCount
       resultLen result =
     (case Searcher_next searcher text of
        (None, searcher') \<Rightarrow> (resultLen, result)
      | (Some m, searcher') \<Rightarrow>
          if int (resultLen + 1) \<ge> limitResultCount
          then (resultLen + 1,
                array_store result resultLen
                  (createFindMatch
                     (new_Range lineNo (index m + 1 + deltaOffset)
                        lineNo (index m + 1 + length (match0 m) + deltaOffset))
                     m captureMatches))
          else findMatchesInLine_regex searcher' text lineNo deltaOffset captureMatches
                 limitResultCount (resultLen + 1)
                 (array_store result resultLen
                    (createFindMatch
                       (new_Range lineNo (index m + 1 + deltaOffset)
                          lineNo (index m + 1 + length (match0 m) + deltaOffset))
                       m captureMatches)))"
  by pat_completeness auto
termination
proof (relation "measure (\<lambda>(s, t, ln, d, c, l, rl, r). scan_measure t s)", goal_cases)
  case 1 show ?case by simp
next
  case (2 s t ln d c l rl r x1 s' m)
  then have "Searcher_next s t = (Some m, s')" by simp
  from Searcher_next_Some[OF this] show ?case by simp
qed

declare findMatchesInLine_regex.simps [simp del]

definition findMatchesInLine ::
  "SearchData \<Rightarrow> string \<Rightarrow> nat \<Rightarrow> nat \<Rightarrow> nat \<Rightarrow> FindMatch list \<Rightarrow> bool \<Rightarrow> int
     \<Rightarrow> nat \<times> FindMatch list" where
  "findMatchesInLine searchData text lineNo deltaOffset resultLen result captureMatches
       limitResultCount =
     (if \<not> captureMatches \<and> simpleSearch searchData \<noteq> None \<and> simpleSearch searchData \<noteq> Some []
      then findMatchesInLine_simple (sd_wordSeparators searchData) text
             (the (simpleSearch searchData)) lineNo deltaOffset limitResultCount
             (- int (length (the (simpleSearch searchData)))) resultLen result
      else findMatchesInLine_regex
             (Searcher_reset (new_Searcher (sd_wordSeparators searchData) (regex searchData)) 0)
             text lineNo deltaOffset captureMatches limitResultCount resultLen result)"

text \<open>The loop over the middle lines (lines 220-222).\<close>

function doFindMatchesLineByLine_middle ::
  "TextModel \<Rightarrow> SearchData \<Rightarrow> bool \<Rightarrow> int \<Rightarrow> nat \<Rightarrow> nat \<Rightarrow> nat \<Rightarrow> FindMatch list
     \<Rightarrow> nat \<times> FindMatch list" where
  "doFindMatchesLineByLine_middle model searchData captureMatches limitResultCount ln endLine
       resultLen result =
     (if ln < endLine \<and> int resultLen < limitResultCount
      then (case findMatchesInLine searchData (getLineContent model ln) ln 0
                   resultLen result captureMatches limitResultCount of
              (resultLen', result') \<Rightarrow>
                doFindMatchesLineByLine_middle model searchData captureMatches limitResultCount
                  (ln + 1) endLine resultLen' result')
      else (resultLen, result))"
  by pat_completeness auto
termination
  by (relation "measure (\<lambda>(model, sd, c, l, ln, endLine, rl, r). endLine - ln)") auto

declare doFindMatchesLineByLine_middle.simps [simp del]

definition doFindMatchesLineByLine ::
  "TextModel \<Rightarrow> Range \<Rightarrow> SearchData \<Rightarrow> bool \<Rightarrow> int \<Rightarrow> FindMatch list" where
  "doFindMatchesLineByLine model searchRange searchData captureMatches limitResultCount =
     (if startLineNumber searchRange = endLineNumber searchRange
      then snd (findMatchesInLine searchData
                  (substring (getLineContent model (startLineNumber searchRange))
                     (startColumn searchRange - 1) (endColumn searchRange - 1))
                  (startLineNumber searchRange) (startColumn searchRange - 1) 0 []
                  captureMatches limitResultCount)
      else
        (case findMatchesInLine searchData
                (substringFrom (getLineContent model (startLineNumber searchRange))
                   (startColumn searchRange - 1))
                (startLineNumber searchRange) (startColumn searchRange - 1) 0 []
                captureMatches limitResultCount of
           (resultLen1, result1) \<Rightarrow>
             (case doFindMatchesLineByLine_middle model searchData captureMatches
                     limitResultCount (startLineNumber searchRange + 1)
                     (endLineNumber searchRange) resultLen1 result1 of
                (resultLen2, result2) \<Rightarrow>
                  if int resultLen2 < limitResultCount
                  then snd (findMatchesInLine searchData
                              (substring (getLineContent model (endLineNumber searchRange))
                                 0 (endColumn searchRange - 1))
                              (endLineNumber searchRange) 0 resultLen2 result2
                              captureMatches limitResultCount)
                  else result2)))"

definition findMatches ::
  "Env \<Rightarrow> TextModel \<Rightarrow> SearchParams \<Rightarrow> Range \<Rightarrow> bool \<Rightarrow> int \<Rightarrow> FindMatch list" where
  "findMatches env model searchParams searchRange captureMatches limitResultCount =
     (case parseSearchRequest env searchParams of
        None \<Rightarrow> []
      | Some searchData \<Rightarrow>
          if multiline (regex searchData)
          then fst (doFindMatchesMultiline model searchRange
                      (new_Searcher (sd_wordSeparators searchData) (regex searchData))
                      captureMatches limitResultCount)
          else doFindMatchesLineByLine model searchRange searchData captureMatches
                 limitResultCount)"


text \<open>
  One pass of \<^verbatim>\<open>_doFindNextMatchMultiline\<close> (lines 283-298): the search of the text from
  the start of the starting line to the end of the buffer, from the starting column.
\<close>

definition doFindNextMatchMultiline_pass ::
  "TextModel \<Rightarrow> Position \<Rightarrow> Searcher \<Rightarrow> bool \<Rightarrow> FindMatch option \<times> Searcher" where
  "doFindNextMatchMultiline_pass model searchStart searcher captureMatches =
     (let searchTextStart = new_Position (lineNumber searchStart) 1;
          deltaOffset = getOffsetAt model searchTextStart;
          lineCount = getLineCount model;
          text = getValueInRange model
                   (new_Range (lineNumber searchTextStart) (column searchTextStart)
                      lineCount (getLineMaxColumn model lineCount)) LF
      in case Searcher_next (Searcher_reset searcher (column searchStart - 1)) text of
           (Some m, searcher') \<Rightarrow>
             (Some (createFindMatch
                      (getMultilineMatchRange model deltaOffset text (index m) (match0 m))
                      m captureMatches), searcher')
         | (None, searcher') \<Rightarrow> (None, searcher'))"

function doFindNextMatchMultiline ::
  "TextModel \<Rightarrow> Position \<Rightarrow> Searcher \<Rightarrow> bool \<Rightarrow> FindMatch option" where
  "doFindNextMatchMultiline model searchStart searcher captureMatches =
     (case doFindNextMatchMultiline_pass model searchStart searcher captureMatches of
        (Some r, searcher') \<Rightarrow> Some r
      | (None, searcher') \<Rightarrow>
          if lineNumber searchStart \<noteq> 1 \<or> column searchStart \<noteq> 1
          then doFindNextMatchMultiline model (new_Position 1 1) searcher' captureMatches
          else None)"
  by pat_completeness auto
termination
  by (relation "measure (\<lambda>(model, searchStart, searcher, c).
        if lineNumber searchStart \<noteq> 1 \<or> column searchStart \<noteq> 1 then 1 else 0)")
     (auto simp: new_Position_def)

declare doFindNextMatchMultiline.simps [simp del]

definition findFirstMatchInLine ::
  "Searcher \<Rightarrow> string \<Rightarrow> nat \<Rightarrow> nat \<Rightarrow> bool \<Rightarrow> FindMatch option \<times> Searcher" where
  "findFirstMatchInLine searcher text lineNo fromColumn captureMatches =
     (case Searcher_next (Searcher_reset searcher (fromColumn - 1)) text of
        (Some m, searcher') \<Rightarrow>
          (Some (createFindMatch
                   (new_Range lineNo (index m + 1) lineNo (index m + 1 + length (match0 m)))
                   m captureMatches), searcher')
      | (None, searcher') \<Rightarrow> (None, searcher'))"

text \<open>The loop \<^verbatim>\<open>for (let i = 1; i <= lineCount; i++)\<close> of lines 319-326.\<close>

function doFindNextMatchLineByLine_loop ::
  "TextModel \<Rightarrow> nat \<Rightarrow> nat \<Rightarrow> Searcher \<Rightarrow> bool \<Rightarrow> nat \<Rightarrow> FindMatch option" where
  "doFindNextMatchLineByLine_loop model lineCount startLine searcher captureMatches i =
     (if i \<le> lineCount
      then (let lineIndex = (startLine + i - 1) mod lineCount
            in case findFirstMatchInLine searcher (getLineContent model (lineIndex + 1))
                      (lineIndex + 1) 1 captureMatches of
                 (Some r, searcher') \<Rightarrow> Some r
               | (None, searcher') \<Rightarrow>
                   doFindNextMatchLineByLine_loop model lineCount startLine searcher'
                     captureMatches (i + 1))
      else None)"
  by pat_completeness auto
termination
  by (relation "measure (\<lambda>(model, lineCount, startLine, s, c, i). Suc lineCount - i)") auto

declare doFindNextMatchLineByLine_loop.simps [simp del]

definition doFindNextMatchLineByLine ::
  "TextModel \<Rightarrow> Position \<Rightarrow> Searcher \<Rightarrow> bool \<Rightarrow> FindMatch option" where
  "doFindNextMatchLineByLine model searchStart searcher captureMatches =
     (let lineCount = getLineCount model;
          startLine = lineNumber searchStart
      in case findFirstMatchInLine searcher (getLineContent model startLine) startLine
                (column searchStart) captureMatches of
           (Some r, searcher') \<Rightarrow> Some r
         | (None, searcher') \<Rightarrow>
             doFindNextMatchLineByLine_loop model lineCount startLine searcher'
               captureMatches 1)"

definition findNextMatch ::
  "Env \<Rightarrow> TextModel \<Rightarrow> SearchParams \<Rightarrow> Position \<Rightarrow> bool \<Rightarrow> FindMatch option" where
  "findNextMatch env model searchParams searchStart captureMatches =
     (case parseSearchRequest env searchParams of
        None \<Rightarrow> None
      | Some searchData \<Rightarrow>
          let searcher = new_Searcher (sd_wordSeparators searchData) (regex searchData)
          in if multiline (regex searchData)
             then doFindNextMatchMultiline model searchStart searcher captureMatches
             else doFindNextMatchLineByLine model searchStart searcher captureMatches)"


text \<open>
  \<^verbatim>\<open>_doFindPreviousMatchMultiline\<close> calls itself at most once more, from the end of the
  buffer: the measure is 1 away from the end position and 0 at it.
\<close>

function doFindPreviousMatchMultiline ::
  "TextModel \<Rightarrow> Position \<Rightarrow> Searcher \<Rightarrow> bool \<Rightarrow> FindMatch option" where
  "doFindPreviousMatchMultiline model searchStart searcher captureMatches =
     (case doFindMatchesMultiline model
             (new_Range 1 1 (lineNumber searchStart) (column searchStart))
             searcher captureMatches (10 * LIMIT_FIND_COUNT) of
        (matches, searcher') \<Rightarrow>
          if length matches > 0 then Some (matches ! (length matches - 1))
          else
            (let lineCount = getLineCount model
             in if lineNumber searchStart \<noteq> lineCount
                   \<or> column searchStart \<noteq> getLineMaxColumn model lineCount
                then doFindPreviousMatchMultiline model
                       (new_Position lineCount (getLineMaxColumn model lineCount))
                       searcher' captureMatches
                else None))"
  by pat_completeness auto
termination
  by (relation "measure (\<lambda>(model, searchStart, searcher, c).
        if lineNumber searchStart \<noteq> getLineCount model
           \<or> column searchStart \<noteq> getLineMaxColumn model (getLineCount model) then 1 else 0)")
     (auto simp: new_Position_def)

declare doFindPreviousMatchMultiline.simps [simp del]

text \<open>The loop of \<^verbatim>\<open>_findLastMatchInLine\<close> (lines 401-403).\<close>

function findLastMatchInLine_loop ::
  "Searcher \<Rightarrow> string \<Rightarrow> nat \<Rightarrow> bool \<Rightarrow> FindMatch option \<Rightarrow> FindMatch option \<times> Searcher" where
  "findLastMatchInLine_loop searcher text lineNo captureMatches bestResult =
     (case Searcher_next searcher text of
        (None, searcher') \<Rightarrow> (bestResult, searcher')
      | (Some m, searcher') \<Rightarrow>
          findLastMatchInLine_loop searcher' text lineNo captureMatches
            (Some (createFindMatch
                     (new_Range lineNo (index m + 1) lineNo (index m + 1 + length (match0 m)))
                     m captureMatches)))"
  by pat_completeness auto
termination
proof (relation "measure (\<lambda>(s, t, ln, c, b). scan_measure t s)", goal_cases)
  case 1 show ?case by simp
next
  case (2 s t ln c b x1 s' m)
  then have "Searcher_next s t = (Some m, s')" by simp
  from Searcher_next_Some[OF this] show ?case by simp
qed

declare findLastMatchInLine_loop.simps [simp del]

definition findLastMatchInLine ::
  "Searcher \<Rightarrow> string \<Rightarrow> nat \<Rightarrow> bool \<Rightarrow> FindMatch option \<times> Searcher" where
  "findLastMatchInLine searcher text lineNo captureMatches =
     findLastMatchInLine_loop (Searcher_reset searcher 0) text lineNo captureMatches None"

text \<open>The loop \<^verbatim>\<open>for (let i = 1; i <= lineCount; i++)\<close> of lines 385-392.\<close>

function doFindPreviousMatchLineByLine_loop ::
  "TextModel \<Rightarrow> nat \<Rightarrow> nat \<Rightarrow> Searcher \<Rightarrow> bool \<Rightarrow> nat \<Rightarrow> FindMatch option" where
  "doFindPreviousMatchLineByLine_loop model lineCount startLine searcher captureMatches i =
     (if i \<le> lineCount
      then (let lineIndex = (lineCount + startLine - i - 1) mod lineCount
            in case findLastMatchInLine searcher (getLineContent model (lineIndex + 1))
                      (lineIndex + 1) captureMatches of
                 (Some r, searcher') \<Rightarrow> Some r
               | (None, searcher') \<Rightarrow>
                   doFindPreviousMatchLineByLine_loop model lineCount startLine searcher'
                     captureMatches (i + 1))
      else None)"
  by pat_completeness auto
termination
  by (relation "measure (\<lambda>(model, lineCount, startLine, s, c, i). Suc lineCount - i)") auto

declare doFindPreviousMatchLineByLine_loop.simps [simp del]

definition doFindPreviousMatchLineByLine ::
  "TextModel \<Rightarrow> Position \<Rightarrow> Searcher \<Rightarrow> bool \<Rightarrow> FindMatch option" where
  "doFindPreviousMatchLineByLine model searchStart searcher captureMatches =
     (let lineCount = getLineCount model;
          startLine = lineNumber searchStart
      in case findLastMatchInLine searcher
                (substring (getLineContent model startLine) 0 (column searchStart - 1))
                startLine captureMatches of
           (Some r, searcher') \<Rightarrow> Some r
         | (None, searcher') \<Rightarrow>
             doFindPreviousMatchLineByLine_loop model lineCount startLine searcher'
               captureMatches 1)"

definition findPreviousMatch ::
  "Env \<Rightarrow> TextModel \<Rightarrow> SearchParams \<Rightarrow> Position \<Rightarrow> bool \<Rightarrow> FindMatch option" where
  "findPreviousMatch env model searchParams searchStart captureMatches =
     (case parseSearchRequest env searchParams of
        None \<Rightarrow> None
      | Some searchData \<Rightarrow>
          let searcher = new_Searcher (sd_wordSeparators searchData) (regex searchData)
          in if multiline (regex searchData)
             then doFindPreviousMatchMultiline model searchStart searcher captureMatches
             else doFindPreviousMatchLineByLine model searchStart searcher captureMatches)"


lemma nth_next_bound:
  "scan_inv t s \<Longrightarrow> int (length t) - prevMatchStartIndex s \<le> int k \<Longrightarrow>
     fst (nth_next k s t) = None"
proof (induction k arbitrary: s)
  case 0
  show ?case
  proof (cases "Searcher_next s t")
    case (Pair r s')
    show ?thesis
    proof (cases r)
      case None with Pair show ?thesis by simp
    next
      case (Some m)
      with Pair have nx: "Searcher_next s t = (Some m, s')" by simp
      from Searcher_next_inv[OF nx "0.prems"(1)] Searcher_next_Some[OF nx] "0.prems"(2)
      show ?thesis by simp
    qed
  qed
next
  case (Suc k)
  show ?case
  proof (cases "Searcher_next s t")
    case (Pair r s')
    show ?thesis
    proof (cases r)
      case None with Pair show ?thesis by simp
    next
      case (Some m)
      with Pair have nx: "Searcher_next s t = (Some m, s')" by simp
      from Searcher_next_inv[OF nx Suc.prems(1)] have lt: "prevMatchStartIndex s < int (index m)"
        and inv': "scan_inv t s'" by simp_all
      from Searcher_next_Some[OF nx] have p': "prevMatchStartIndex s' = int (index m)" by simp
      from lt p' Suc.prems(2) have "int (length t) - prevMatchStartIndex s' \<le> int k" by simp
      from Suc.IH[OF inv' this] nx show ?thesis by simp
    qed
  qed
qed

lemma scan_all_end:
  "i < length (scan_all s t) \<Longrightarrow>
   index (scan_all s t ! i) + length (match0 (scan_all s t ! i)) = length t \<Longrightarrow>
   Suc i = length (scan_all s t)"
proof (induction s t arbitrary: i rule: scan_all.induct)
  case (1 s t)
  show ?case
  proof (cases "Searcher_next s t")
    case (Pair r s')
    show ?thesis
    proof (cases r)
      case None
      with Pair "1.prems" show ?thesis by (simp add: scan_all_Nil)
    next
      case (Some m)
      with Pair have nx: "Searcher_next s t = (Some m, s')" by simp
      note C = scan_all_Cons[OF nx]
      show ?thesis
      proof (cases i)
        case 0
        with "1.prems"(2) C have "index m + length (match0 m) = length t" by simp
        with Searcher_next_Some[OF nx]
        have "prevMatchStartIndex s' + int (prevMatchLength s') = int (length t)" by simp
        then have "scan_all s' t = []" by (simp add: scan_all_Nil Searcher_next_at_end)
        with C 0 show ?thesis by simp
      next
        case (Suc j)
        with "1.prems" C have "j < length (scan_all s' t)"
          "index (scan_all s' t ! j) + length (match0 (scan_all s' t ! j)) = length t"
          by simp_all
        from "1.IH"[OF nx[symmetric] refl this] C Suc show ?thesis by simp
      qed
    qed
  qed
qed

subsection \<open>The loops as lists\<close>

text \<open>
  The number of matches a collecting loop stores at most when the array holds \<open>n\<close>
  entries: it stores a match first and compares the count with the limit afterwards.
\<close>

definition room :: "int \<Rightarrow> nat \<Rightarrow> nat" where
  "room limitResultCount n = max 1 (nat (limitResultCount - int n))"

definition multilineFindMatch :: "TextModel \<Rightarrow> nat \<Rightarrow> string \<Rightarrow> bool \<Rightarrow> RegExpExecArray \<Rightarrow> FindMatch" where
  "multilineFindMatch model deltaOffset text captureMatches m =
     createFindMatch (getMultilineMatchRange model deltaOffset text (index m) (match0 m))
       m captureMatches"

definition lineFindMatch :: "nat \<Rightarrow> nat \<Rightarrow> bool \<Rightarrow> RegExpExecArray \<Rightarrow> FindMatch" where
  "lineFindMatch lineNo deltaOffset captureMatches m =
     createFindMatch
       (new_Range lineNo (index m + 1 + deltaOffset)
          lineNo (index m + 1 + length (match0 m) + deltaOffset))
       m captureMatches"

lemma array_store_length [simp]: "array_store r (length r) v = r @ [v]"
  by (simp add: array_store_def)

lemma room_stop: "limitResultCount \<le> int (n + 1) \<Longrightarrow> room limitResultCount n = 1"
  by (simp add: room_def)

lemma room_go:
  "\<not> limitResultCount \<le> int (n + 1) \<Longrightarrow> room limitResultCount n = Suc (room limitResultCount (n + 1))"
  by (simp add: room_def)

lemma doFindMatchesMultiline_loop_scan:
  "n = length r \<Longrightarrow>
   fst (doFindMatchesMultiline_loop model d t s c l r n) =
     r @ map (multilineFindMatch model d t c) (take (room l (length r)) (scan_all s t))"
proof (induction model d t s c l r n rule: doFindMatchesMultiline_loop.induct)
  case (1 model d t s c l r n)
  obtain r1 s1 where nx: "Searcher_next s t = (r1, s1)" by (cases "Searcher_next s t")
  show ?case
  proof (cases r1)
    case None
    with nx show ?thesis
      by (subst doFindMatchesMultiline_loop.simps) (simp add: scan_all_Nil)
  next
    case (Some m)
    with nx have nx': "Searcher_next s t = (Some m, s1)" by simp
    note C = scan_all_Cons[OF nx']
    show ?thesis
    proof (cases "l \<le> int (n + 1)")
      case True
      with nx' "1.prems" C show ?thesis
        by (subst doFindMatchesMultiline_loop.simps)
           (simp add: room_stop multilineFindMatch_def)
    next
      case False
      from "1.IH"[OF nx'[symmetric] refl _ ] False "1.prems"
      have "fst (doFindMatchesMultiline_loop model d t s1 c l
                  (array_store r n (createFindMatch (getMultilineMatchRange model d t (index m) (match0 m)) m c))
                  (n + 1)) =
            (r @ [multilineFindMatch model d t c m]) @
              map (multilineFindMatch model d t c) (take (room l (Suc (length r))) (scan_all s1 t))"
        by (simp add: multilineFindMatch_def)
      with nx' "1.prems" C False show ?thesis
        by (subst doFindMatchesMultiline_loop.simps) (simp add: room_go)
    qed
  qed
qed

lemma findMatchesInLine_regex_scan:
  "n = length r \<Longrightarrow>
   findMatchesInLine_regex s t ln d c l n r =
     (length r + length (take (room l (length r)) (scan_all s t)),
      r @ map (lineFindMatch ln d c) (take (room l (length r)) (scan_all s t)))"
proof (induction s t ln d c l n r rule: findMatchesInLine_regex.induct)
  case (1 s t ln d c l n r)
  obtain r1 s1 where nx: "Searcher_next s t = (r1, s1)" by (cases "Searcher_next s t")
  show ?case
  proof (cases r1)
    case None
    with nx "1.prems" show ?thesis
      by (subst findMatchesInLine_regex.simps) (simp add: scan_all_Nil)
  next
    case (Some m)
    with nx have nx': "Searcher_next s t = (Some m, s1)" by simp
    note C = scan_all_Cons[OF nx']
    show ?thesis
    proof (cases "l \<le> int (n + 1)")
      case True
      with nx' "1.prems" C show ?thesis
        by (subst findMatchesInLine_regex.simps)
           (simp add: room_stop lineFindMatch_def)
    next
      case False
      from "1.IH"[OF nx'[symmetric] refl _ ] False "1.prems"
      have "findMatchesInLine_regex s1 t ln d c l (n + 1)
               (array_store r n (createFindMatch
                       (new_Range ln (index m + 1 + d) ln (index m + 1 + length (match0 m) + d)) m c)) =
            (Suc (length r) + length (take (room l (Suc (length r))) (scan_all s1 t)),
             (r @ [lineFindMatch ln d c m]) @
              map (lineFindMatch ln d c) (take (room l (Suc (length r))) (scan_all s1 t)))"
        by (simp add: lineFindMatch_def)
      with nx' "1.prems" C False show ?thesis
        by (subst findMatchesInLine_regex.simps) (simp add: room_go)
    qed
  qed
qed


text \<open>The indices of the occurrences that the loop of the fast path accepts, in order.\<close>

function simple_scan :: "WordCharacterClassifier option \<Rightarrow> string \<Rightarrow> string \<Rightarrow> int \<Rightarrow> nat list" where
  "simple_scan ws text pat lastMatchIndex =
     (if pat = [] then []
      else
        (case indexOf text pat (lastMatchIndex + int (length pat)) of
           None \<Rightarrow> []
         | Some k \<Rightarrow>
             if acceptsMatch ws text (length text) k (length pat)
             then k # simple_scan ws text pat (int k)
             else simple_scan ws text pat (int k)))"
  by pat_completeness auto
termination
proof (relation "measure (\<lambda>(ws, t, pat, lmi). nat (int (length t) + 1 - lmi))", goal_cases)
  case 1 show ?case by simp
next
  case (2 ws t pat lmi k)
  from indexOf_Some_progress[OF 2(2) 2(1)] show ?case by auto
next
  case (3 ws t pat lmi k)
  from indexOf_Some_progress[OF 3(2) 3(1)] show ?case by auto
qed

declare simple_scan.simps [simp del]

definition simpleFindMatch :: "nat \<Rightarrow> nat \<Rightarrow> nat \<Rightarrow> nat \<Rightarrow> FindMatch" where
  "simpleFindMatch lineNo deltaOffset len k =
     \<lparr>fm_range = new_Range lineNo (k + 1 + deltaOffset) lineNo (k + 1 + len + deltaOffset),
      fm_matches = None\<rparr>"

lemma findMatchesInLine_simple_scan:
  "n = length r \<Longrightarrow>
   findMatchesInLine_simple ws t pat ln d l lmi n r =
     (length r + length (take (room l (length r)) (simple_scan ws t pat lmi)),
      r @ map (simpleFindMatch ln d (length pat)) (take (room l (length r)) (simple_scan ws t pat lmi)))"
proof (induction ws t pat ln d l lmi n r rule: findMatchesInLine_simple.induct)
  case (1 ws t pat ln d l lmi n r)
  show ?case
  proof (cases "pat = []")
    case True
    with "1.prems" show ?thesis
      by (subst findMatchesInLine_simple.simps, subst simple_scan.simps, subst simple_scan.simps) simp
  next
    case ne: False
    show ?thesis
    proof (cases "indexOf t pat (lmi + int (length pat))")
      case None
      with ne "1.prems" show ?thesis
        by (subst findMatchesInLine_simple.simps, subst simple_scan.simps, subst simple_scan.simps) simp
    next
      case (Some k)
      show ?thesis
      proof (cases "acceptsMatch ws t (length t) k (length pat)")
        case rej: False
        have S: "simple_scan ws t pat lmi = simple_scan ws t pat (int k)"
          using ne Some rej by (subst simple_scan.simps) simp
        from "1.IH"(2)[OF ne Some rej "1.prems"] ne Some rej show ?thesis
          by (subst findMatchesInLine_simple.simps) (simp add: S)
      next
        case acc: True
        have S: "simple_scan ws t pat lmi = k # simple_scan ws t pat (int k)"
          using ne Some acc by (subst simple_scan.simps) simp
        show ?thesis
        proof (cases "l \<le> int (n + 1)")
          case True
          with ne Some acc "1.prems" show ?thesis
            by (subst findMatchesInLine_simple.simps)
               (simp add: S room_stop simpleFindMatch_def)
        next
          case False
          from "1.IH"(1)[OF ne Some acc False] "1.prems"
          have "findMatchesInLine_simple ws t pat ln d l (int k) (n + 1)
                  (array_store r n
                     \<lparr>fm_range = new_Range ln (k + 1 + d) ln (k + 1 + length pat + d),
                      fm_matches = None\<rparr>) =
                (Suc (length r) + length (take (room l (Suc (length r))) (simple_scan ws t pat (int k))),
                 (r @ [simpleFindMatch ln d (length pat) k]) @
                   map (simpleFindMatch ln d (length pat))
                     (take (room l (Suc (length r))) (simple_scan ws t pat (int k))))"
            by (simp add: simpleFindMatch_def)
          with ne Some acc "1.prems" False show ?thesis
            by (subst findMatchesInLine_simple.simps) (simp add: S room_go)
        qed
      qed
    qed
  qed
qed

definition usesSimpleSearch :: "SearchData \<Rightarrow> bool \<Rightarrow> bool" where
  "usesSimpleSearch searchData captureMatches \<longleftrightarrow>
     \<not> captureMatches \<and> simpleSearch searchData \<noteq> None \<and> simpleSearch searchData \<noteq> Some []"

text \<open>The matches of one line (or part of a line), before the limit cuts them.\<close>

definition line_matches :: "SearchData \<Rightarrow> string \<Rightarrow> nat \<Rightarrow> nat \<Rightarrow> bool \<Rightarrow> FindMatch list" where
  "line_matches searchData text lineNo deltaOffset captureMatches =
     (if usesSimpleSearch searchData captureMatches
      then map (simpleFindMatch lineNo deltaOffset (length (the (simpleSearch searchData))))
             (simple_scan (sd_wordSeparators searchData) text (the (simpleSearch searchData))
                (- int (length (the (simpleSearch searchData)))))
      else map (lineFindMatch lineNo deltaOffset captureMatches)
             (scan_all
                (Searcher_reset (new_Searcher (sd_wordSeparators searchData) (regex searchData)) 0)
                text))"

lemma findMatchesInLine_scan:
  "findMatchesInLine sd t ln d (length r) r c l =
     (length r + length (take (room l (length r)) (line_matches sd t ln d c)),
      r @ take (room l (length r)) (line_matches sd t ln d c))"
  by (simp add: findMatchesInLine_def line_matches_def usesSimpleSearch_def
      findMatchesInLine_simple_scan findMatchesInLine_regex_scan take_map)

text \<open>
  The lines after the first are visited while the array holds fewer entries than the
  limit (lines 220 and 225).
\<close>

fun gather :: "int \<Rightarrow> 'a list \<Rightarrow> 'a list list \<Rightarrow> 'a list" where
  "gather l r [] = r"
| "gather l r (xs # rest) =
     (if int (length r) < l then gather l (r @ take (room l (length r)) xs) rest else r)"

lemma gather_stop: "\<not> int (length r) < l \<Longrightarrow> gather l r xss = r"
  by (cases xss) simp_all

lemma doFindMatchesLineByLine_middle_scan:
  "n = length r \<Longrightarrow>
   doFindMatchesLineByLine_middle model sd c l ln endLine n r =
     (length (gather l r (map (\<lambda>k. line_matches sd (getLineContent model k) k 0 c) [ln ..< endLine])),
      gather l r (map (\<lambda>k. line_matches sd (getLineContent model k) k 0 c) [ln ..< endLine]))"
proof (induction model sd c l ln endLine n r rule: doFindMatchesLineByLine_middle.induct)
  case (1 model sd c l ln endLine n r)
  show ?case
  proof (cases "ln < endLine \<and> int n < l")
    case True
    then have U: "[ln ..< endLine] = ln # [ln + 1 ..< endLine]" by (simp add: upt_conv_Cons)
    let ?new = "take (room l (length r)) (line_matches sd (getLineContent model ln) ln 0 c)"
    have fm: "findMatchesInLine sd (getLineContent model ln) ln 0 n r c l
                = (length r + length ?new, r @ ?new)"
      using "1.prems" by (simp add: findMatchesInLine_scan)
    have "doFindMatchesLineByLine_middle model sd c l (ln + 1) endLine
            (length r + length ?new) (r @ ?new) =
          (length (gather l (r @ ?new)
             (map (\<lambda>k. line_matches sd (getLineContent model k) k 0 c) [ln + 1 ..< endLine])),
           gather l (r @ ?new)
             (map (\<lambda>k. line_matches sd (getLineContent model k) k 0 c) [ln + 1 ..< endLine]))"
      by (rule "1.IH"[OF True fm[symmetric]]) simp
    with True "1.prems" fm show ?thesis
      by (subst doFindMatchesLineByLine_middle.simps) (simp add: U)
  next
    case False
    show ?thesis
    proof (cases "int n < l")
      case True
      with False have nlt: "\<not> ln < endLine" by simp
      then have "gather l r (map (\<lambda>k. line_matches sd (getLineContent model k) k 0 c)
                   [ln ..< endLine]) = r" by simp
      with nlt "1.prems" show ?thesis
        by (subst doFindMatchesLineByLine_middle.simps) simp
    next
      case nl: False
      with "1.prems" show ?thesis
        by (subst doFindMatchesLineByLine_middle.simps) (simp add: gather_stop)
    qed
  qed
qed

lemma gather_append:
  "gather l r (xss @ yss) = gather l (gather l r xss) yss"
proof (induction xss arbitrary: r)
  case Nil show ?case by simp
next
  case (Cons xs xss)
  show ?case
  proof (cases "int (length r) < l")
    case True with Cons show ?thesis by simp
  next
    case False
    then show ?thesis by (simp add: gather_stop)
  qed
qed

lemma doFindMatchesLineByLine_scan:
  "doFindMatchesLineByLine model rng sd c l =
     (if startLineNumber rng = endLineNumber rng
      then take (room l 0)
             (line_matches sd
                (substring (getLineContent model (startLineNumber rng))
                   (startColumn rng - 1) (endColumn rng - 1))
                (startLineNumber rng) (startColumn rng - 1) c)
      else gather l
             (take (room l 0)
                (line_matches sd
                   (substringFrom (getLineContent model (startLineNumber rng))
                      (startColumn rng - 1))
                   (startLineNumber rng) (startColumn rng - 1) c))
             (map (\<lambda>k. line_matches sd (getLineContent model k) k 0 c)
                [startLineNumber rng + 1 ..< endLineNumber rng]
              @ [line_matches sd
                   (substring (getLineContent model (endLineNumber rng)) 0 (endColumn rng - 1))
                   (endLineNumber rng) 0 c]))"
proof (cases "startLineNumber rng = endLineNumber rng")
  case True
  with findMatchesInLine_scan[of sd _ _ _ "[]" c l] show ?thesis
    by (simp add: doFindMatchesLineByLine_def)
next
  case False
  let ?first = "take (room l 0)
                (line_matches sd
                   (substringFrom (getLineContent model (startLineNumber rng))
                      (startColumn rng - 1))
                   (startLineNumber rng) (startColumn rng - 1) c)"
  let ?mid = "gather l ?first (map (\<lambda>k. line_matches sd (getLineContent model k) k 0 c)
                [startLineNumber rng + 1 ..< endLineNumber rng])"
  have 1: "findMatchesInLine sd
                (substringFrom (getLineContent model (startLineNumber rng))
                   (startColumn rng - 1))
                (startLineNumber rng) (startColumn rng - 1) 0 [] c l = (length ?first, ?first)"
    using findMatchesInLine_scan[of sd _ _ _ "[]" c l] by simp
  have 2: "doFindMatchesLineByLine_middle model sd c l (startLineNumber rng + 1)
             (endLineNumber rng) (length ?first) ?first = (length ?mid, ?mid)"
    by (rule doFindMatchesLineByLine_middle_scan) simp
  have 3: "snd (findMatchesInLine sd
                  (substring (getLineContent model (endLineNumber rng)) 0 (endColumn rng - 1))
                  (endLineNumber rng) 0 (length ?mid) ?mid c l)
           = ?mid @ take (room l (length ?mid))
                      (line_matches sd
                         (substring (getLineContent model (endLineNumber rng)) 0 (endColumn rng - 1))
                         (endLineNumber rng) 0 c)"
    by (simp add: findMatchesInLine_scan)
  from False show ?thesis
    unfolding doFindMatchesLineByLine_def gather_append
    by (simp only: 1 2 3 if_False prod.case gather.simps split: if_splits) 
qed

subsection \<open>The multiline test, in the words of the specification\<close>

text \<open>
  Section 4.1: the pattern is multiline when it contains \<open>n\<close> or \<open>r\<close> immediately after
  a backslash that is itself not escaped, that is after an odd number of consecutive
  backslashes.
\<close>

definition backslashes_before :: "string \<Rightarrow> nat \<Rightarrow> nat" where
  "backslashes_before source i =
     length (takeWhile (\<lambda>c. c = Backslash) (rev (take i source)))"

definition unescaped_newline_escape_at :: "string \<Rightarrow> nat \<Rightarrow> bool" where
  "unescaped_newline_escape_at source i \<longleftrightarrow>
     i < length source \<and> (source ! i = CHR ''n'' \<or> source ! i = CHR ''r'')
     \<and> odd (backslashes_before source i)"

definition multiline_regex_spec :: "string \<Rightarrow> bool" where
  "multiline_regex_spec source = list_ex (unescaped_newline_escape_at source) [0 ..< length source]"

lemma multiline_regex_spec_iff:
  "multiline_regex_spec source \<longleftrightarrow> (\<exists>i. unescaped_newline_escape_at source i)"
  by (auto simp: multiline_regex_spec_def list_ex_iff unescaped_newline_escape_at_def)

lemma backslashes_before_0 [simp]: "backslashes_before source 0 = 0"
  by (simp add: backslashes_before_def)

lemma backslashes_before_all:
  "i \<le> length xs \<Longrightarrow> \<forall>x\<in>set (take i xs). x = Backslash \<Longrightarrow> backslashes_before xs i = i"
  by (simp add: backslashes_before_def takeWhile_eq_all_conv[THEN iffD2])

lemma backslashes_before_Cons:
  "i \<le> length xs \<Longrightarrow>
   backslashes_before (c # xs) (Suc i) =
     (if \<forall>x\<in>set (take i xs). x = Backslash
      then i + (if c = Backslash then 1 else 0)
      else backslashes_before xs i)"
proof (cases "\<forall>x\<in>set (take i xs). x = Backslash")
  case True
  assume i: "i \<le> length xs"
  from True have "\<forall>x\<in>set (rev (take i xs)). x = Backslash" by simp
  then have "takeWhile (\<lambda>c. c = Backslash) (rev (take i xs) @ [c])
               = rev (take i xs) @ takeWhile (\<lambda>c. c = Backslash) [c]"
    by (subst takeWhile_append) simp
  with True i show ?thesis by (simp add: backslashes_before_def)
next
  case False
  then obtain x where "x \<in> set (rev (take i xs))" "\<not> x = Backslash" by auto
  then have "takeWhile (\<lambda>c. c = Backslash) (rev (take i xs) @ [c])
               = takeWhile (\<lambda>c. c = Backslash) (rev (take i xs))"
    by (rule takeWhile_append1)
  with False show ?thesis by (auto simp: backslashes_before_def)
qed

lemma escape_at_0 [simp]: "\<not> unescaped_newline_escape_at source 0"
  by (simp add: unescaped_newline_escape_at_def)

lemma escape_at_plain:
  "c \<noteq> Backslash \<Longrightarrow>
   unescaped_newline_escape_at (c # xs) (Suc i) = unescaped_newline_escape_at xs i"
  by (cases "i \<le> length xs")
     (auto simp: unescaped_newline_escape_at_def backslashes_before_Cons backslashes_before_all)

lemma escape_at_escaped:
  "unescaped_newline_escape_at (Backslash # d # xs) (Suc (Suc i)) =
     unescaped_newline_escape_at xs i"
proof (cases "i \<le> length xs")
  case True
  then have "backslashes_before (Backslash # d # xs) (Suc (Suc i)) =
     (if \<forall>x\<in>set (take i xs). x = Backslash
      then i + (if d = Backslash then 2 else 0)
      else backslashes_before xs i)"
    by (auto simp: backslashes_before_Cons[of "Suc i"] backslashes_before_Cons[of i])
  with True show ?thesis
    by (auto simp: unescaped_newline_escape_at_def backslashes_before_all)
next
  case False
  then show ?thesis by (simp add: unescaped_newline_escape_at_def)
qed

lemma escape_at_1:
  "unescaped_newline_escape_at (c # d # xs) (Suc 0) =
     (c = Backslash \<and> (d = CHR ''n'' \<or> d = CHR ''r''))"
  by (auto simp: unescaped_newline_escape_at_def backslashes_before_def)

lemma isMultilineRegexSource_from_spec:
  "isMultilineRegexSource_from source = (\<exists>i. unescaped_newline_escape_at source i)"
proof (induction source rule: isMultilineRegexSource_from.induct)
  case 1
  show ?case by (simp add: unescaped_newline_escape_at_def)
next
  case (2 c)
  show ?case by (auto simp: unescaped_newline_escape_at_def)
next
  case (3 c d rest)
  show ?case
  proof (cases "c = Backslash")
    case False
    have "(\<exists>i. unescaped_newline_escape_at (c # d # rest) i)
          = (\<exists>i. unescaped_newline_escape_at (d # rest) i)"
    proof
      assume "\<exists>i. unescaped_newline_escape_at (c # d # rest) i"
      then obtain i where i: "unescaped_newline_escape_at (c # d # rest) i" ..
      then obtain j where "i = Suc j" by (cases i) auto
      with i False show "\<exists>i. unescaped_newline_escape_at (d # rest) i"
        by (auto simp: escape_at_plain)
    next
      assume "\<exists>i. unescaped_newline_escape_at (d # rest) i"
      then obtain i where "unescaped_newline_escape_at (d # rest) i" ..
      with False have "unescaped_newline_escape_at (c # d # rest) (Suc i)"
        by (simp add: escape_at_plain)
      then show "\<exists>i. unescaped_newline_escape_at (c # d # rest) i" ..
    qed
    with False "3.IH"(2) show ?thesis by simp
  next
    case True
    show ?thesis
    proof (cases "d = CHR ''n'' \<or> d = CHR ''r''")
      case nr: True
      with True have "unescaped_newline_escape_at (c # d # rest) (Suc 0)"
        by (simp add: escape_at_1)
      then have "\<exists>i. unescaped_newline_escape_at (c # d # rest) i" ..
      with True nr show ?thesis by simp
    next
      case nr: False
      have "(\<exists>i. unescaped_newline_escape_at (c # d # rest) i)
          = (\<exists>i. unescaped_newline_escape_at rest i)"
      proof
        assume "\<exists>i. unescaped_newline_escape_at (c # d # rest) i"
        then obtain i where i: "unescaped_newline_escape_at (c # d # rest) i" ..
        then obtain j where j: "i = Suc j" by (cases i) auto
        have "j \<noteq> 0"
        proof
          assume "j = 0"
          with i j have "unescaped_newline_escape_at (c # d # rest) (Suc 0)" by simp
          with nr show False by (simp add: escape_at_1)
        qed
        then obtain k where "j = Suc k" by (cases j) auto
        with i j True show "\<exists>i. unescaped_newline_escape_at rest i"
          by (auto simp: escape_at_escaped)
      next
        assume "\<exists>i. unescaped_newline_escape_at rest i"
        then obtain i where "unescaped_newline_escape_at rest i" ..
        with True have "unescaped_newline_escape_at (c # d # rest) (Suc (Suc i))"
          by (simp add: escape_at_escaped)
        then show "\<exists>i. unescaped_newline_escape_at (c # d # rest) i" ..
      qed
      with True nr "3.IH"(1) show ?thesis by simp
    qed
  qed
qed

lemma isMultilineRegexSource_spec:
  "isMultilineRegexSource source = multiline_regex_spec source"
  by (cases "source = []")
     (simp_all add: isMultilineRegexSource_def multiline_regex_spec_iff
        isMultilineRegexSource_from_spec unescaped_newline_escape_at_def)

lemma parseSearchRequest_multiline:
  "parseSearchRequest env p = Some sd \<Longrightarrow>
     multiline (regex sd) =
       (if isRegex p then isMultilineRegexSource (searchString p)
        else LineFeed \<in> set (searchString p))"
  by (auto simp: parseSearchRequest_def createRegExp_def Let_def
      split: if_splits option.splits)


subsection \<open>An environment for the examples\<close>

text \<open>
  An engine that compiles the requests for a literal and the regular expressions that
  are plain characters and escapes (it rejects every other pattern), the classifier of
  the examples, and the case mapping of ASCII letters.
\<close>

definition ascii_upper :: "char \<Rightarrow> char" where
  "ascii_upper c =
     (case map_of (zip ''abcdefghijklmnopqrstuvwxyz'' ''ABCDEFGHIJKLMNOPQRSTUVWXYZ'') c of
        Some u \<Rightarrow> u | None \<Rightarrow> c)"

definition ascii_lower :: "char \<Rightarrow> char" where
  "ascii_lower c =
     (case map_of (zip ''ABCDEFGHIJKLMNOPQRSTUVWXYZ'' ''abcdefghijklmnopqrstuvwxyz'') c of
        Some l \<Rightarrow> l | None \<Rightarrow> c)"

definition ci_literal_matcher :: "string \<Rightarrow> matcher" where
  "ci_literal_matcher pat text p =
     (if map ascii_lower (take (length pat) (drop p text)) = map ascii_lower pat
      then Some (length pat, []) else None)"

definition regex_special :: string where
  "regex_special = Backslash # ''^$.*+?()[]{}|''"

definition escape_char :: "char \<Rightarrow> char option" where
  "escape_char d =
     (if d = CHR ''n'' then Some LineFeed
      else if d = CHR ''r'' then Some CarriageReturn
      else if d = CHR ''t'' then Some Tab
      else if d \<in> set regex_special then Some d
      else None)"

fun regex_literal :: "string \<Rightarrow> string option" where
  "regex_literal [] = Some []"
| "regex_literal [c] = (if c \<in> set regex_special then None else Some [c])"
| "regex_literal (c # d # rest) =
     (if c = Backslash
      then (case escape_char d of
              None \<Rightarrow> None
            | Some e \<Rightarrow> map_option ((#) e) (regex_literal rest))
      else if c \<in> set regex_special then None
      else map_option ((#) c) (regex_literal (d # rest)))"

definition example_env :: Env where
  "example_env =
     \<lparr>compilePattern =
        (\<lambda>source regexRequest caseMatters multilineMode.
           if regexRequest
           then map_option (\<lambda>lit. if caseMatters then literal_matcher lit
                                    else ci_literal_matcher lit)
                  (regex_literal source)
           else Some (if caseMatters then literal_matcher source
                      else ci_literal_matcher source)),
      getMapForWordSeparators = classifier_of_separators,
      toLowerCase = map ascii_lower,
      toUpperCase = map ascii_upper\<rparr>"

subsection \<open>A buffer of lines, for the examples\<close>

text \<open>
  Modelled from the spec: the buffer is an external collaborator and \<^verbatim>\<open>TextModel\<close> is not
  among the sources. Sections 3 and 6: an ordered sequence of lines (1-based) with a
  global end-of-line marker, the line count, the content and the maximal column (1 +
  length) of a line, the conversions between offsets and positions, consistent with
  the marker, and the text of a range with the line breaks in a chosen style. Positions
  outside the buffer are outside the contract (section 7); the line there is empty.
\<close>

fun positionAt_lines :: "string list \<Rightarrow> nat \<Rightarrow> nat \<Rightarrow> nat \<Rightarrow> Position" where
  "positionAt_lines [] eolLength lineNo offset = new_Position lineNo 1"
| "positionAt_lines [l] eolLength lineNo offset = new_Position lineNo (min offset (length l) + 1)"
| "positionAt_lines (l # l' # ls) eolLength lineNo offset =
     (if offset \<le> length l then new_Position lineNo (offset + 1)
      else positionAt_lines (l' # ls) eolLength (lineNo + 1) (offset - (length l + eolLength)))"

definition lineOf :: "string list \<Rightarrow> nat \<Rightarrow> string" where
  "lineOf ls n = (if 1 \<le> n \<and> n \<le> length ls then ls ! (n - 1) else [])"

definition textModel_of :: "string list \<Rightarrow> bool \<Rightarrow> TextModel" where
  "textModel_of ls crlf =
     (let eol = (if crlf then CRLF_EOL else [LineFeed])
      in \<lparr>getLineCount = length ls,
          getLineContent = lineOf ls,
          getLineMaxColumn = (\<lambda>n. length (lineOf ls n) + 1),
          getEOL = eol,
          getOffsetAt =
            (\<lambda>p. sum_list (map (\<lambda>l. length l + length eol) (take (lineNumber p - 1) ls))
                   + (column p - 1)),
          getPositionAt = positionAt_lines ls (length eol) 1,
          getValueInRange =
            (\<lambda>r preference.
               let sep = (case preference of
                            TextDefined \<Rightarrow> eol | LF \<Rightarrow> [LineFeed] | CRLF \<Rightarrow> CRLF_EOL)
               in if startLineNumber r = endLineNumber r
                  then substring (lineOf ls (startLineNumber r))
                         (startColumn r - 1) (endColumn r - 1)
                  else substringFrom (lineOf ls (startLineNumber r)) (startColumn r - 1)
                       @ sep
                       @ concat (map (\<lambda>k. lineOf ls k @ sep)
                                   [startLineNumber r + 1 ..< endLineNumber r])
                       @ substring (lineOf ls (endLineNumber r)) 0 (endColumn r - 1))\<rparr>)"

subsection \<open>Bounds\<close>

lemma doFindMatchesMultiline_scan:
  "fst (doFindMatchesMultiline model rng s c l) =
     map (multilineFindMatch model (getOffsetAt model (getStartPosition rng))
            (getValueInRange model rng LF) c)
       (take (room l 0) (scan_all (Searcher_reset s 0) (getValueInRange model rng LF)))"
  by (simp add: doFindMatchesMultiline_def Let_def doFindMatchesMultiline_loop_scan)

lemma room_le: "int (room l n) \<le> max 1 (l - int n)"
  by (simp add: room_def)

lemma gather_bound:
  "int (length r) \<le> max 1 l \<Longrightarrow> int (length (gather l r xss)) \<le> max 1 l"
proof (induction xss arbitrary: r)
  case Nil then show ?case by simp
next
  case (Cons xs xss)
  show ?case
  proof (cases "int (length r) < l")
    case True
    then have "room l (length r) = nat (l - int (length r))" by (simp add: room_def)
    with True have "int (length (r @ take (room l (length r)) xs)) \<le> max 1 l"
      by simp
    from Cons.IH[OF this] True show ?thesis by simp
  next
    case False
    with Cons.prems show ?thesis by simp
  qed
qed

lemma take_room_bound: "int (length (take (room l 0) xs)) \<le> max 1 l"
  using room_le[of l 0] by simp

lemma findMatches_bound:
  "int (length (findMatches env model p rng c l)) \<le> max 1 l"
proof (cases "parseSearchRequest env p")
  case None
  then show ?thesis by (simp add: findMatches_def)
next
  case (Some sd)
  note t = take_room_bound
  show ?thesis
  proof (cases "multiline (regex sd)")
    case True
    with Some show ?thesis
      by (simp add: findMatches_def doFindMatchesMultiline_scan take_room_bound del: length_take)
  next
    case False
    have "int (length (doFindMatchesLineByLine model rng sd c l)) \<le> max 1 l"
      unfolding doFindMatchesLineByLine_scan
      by (auto simp del: length_take intro: gather_bound take_room_bound)
    with Some False show ?thesis by (simp add: findMatches_def)
  qed
qed

text \<open>The buffer and the query of the examples of section 8.\<close>

definition foo_bar_buffer :: TextModel where
  "foo_bar_buffer = textModel_of [''foo bar'', ''bar foo''] False"

definition foo_query :: SearchParams where
  "foo_query = \<lparr>searchString = ''foo'', isRegex = False, matchCase = True, sp_wordSeparators = []\<rparr>"

lemmas eval_defs = findMatches_def parseSearchRequest_def createRegExp_def example_env_def
  ascii_lower_def ascii_upper_def doFindMatchesLineByLine_def findMatchesInLine_def
  findMatchesInLine_simple.simps findMatchesInLine_regex.simps doFindMatchesLineByLine_middle.simps
  indexOf_def acceptsMatch_def array_store_def new_Range_def textModel_of_def lineOf_def
  substring_def substringFrom_def foo_bar_buffer_def foo_query_def Let_def
  LineFeed_def CarriageReturn_def CRLF_EOL_def

subsection \<open>Offsets of a multiline match in a buffer with two-character line ends\<close>

text \<open>
  In the words of the specification (section 4.3): the start offset gets one more
  character for every line feed before the match, and the end offset one more for every
  line feed inside the matched text.
\<close>

definition lf_count :: "string \<Rightarrow> nat" where
  "lf_count xs = length (filter (\<lambda>c. c = LineFeed) xs)"

definition crlf_match_range :: "TextModel \<Rightarrow> nat \<Rightarrow> string \<Rightarrow> nat \<Rightarrow> string \<Rightarrow> Range" where
  "crlf_match_range model deltaOffset text matchIndex m0 =
     (let startOffset = deltaOffset + matchIndex + lf_count (take matchIndex text);
          endOffset = startOffset + length m0 + lf_count m0;
          startPosition = getPositionAt model startOffset;
          endPosition = getPositionAt model endOffset
      in new_Range (lineNumber startPosition) (column startPosition)
           (lineNumber endPosition) (column endPosition))"

lemma fold_lf_count:
  "k \<le> length text \<Longrightarrow>
   fold (\<lambda>i n. if charCodeAt text i = Some LineFeed then n + 1 else n) [0 ..< k] a
     = a + lf_count (take k text)"
proof (induction k)
  case 0 show ?case by (simp add: lf_count_def)
next
  case (Suc k)
  then have "k < length text" by simp
  with Suc show ?case
    by (simp add: take_Suc_conv_app_nth lf_count_def charCodeAt_def)
qed

lemma charCodeAt_drop:
  "charCodeAt text (i + idx) = charCodeAt (drop idx text) i"
  by (auto simp: charCodeAt_def add.commute)

lemma getMultilineMatchRange_crlf:
  assumes "getEOL model = CRLF_EOL" "idx + length m0 \<le> length text"
    and "m0 = take (length m0) (drop idx text)"
  shows "getMultilineMatchRange model d text idx m0 = crlf_match_range model d text idx m0"
proof -
  from assms(2) have 1: "fold (\<lambda>i n. if charCodeAt text i = Some LineFeed then n + 1 else n)
                          [0 ..< idx] 0 = lf_count (take idx text)"
    using fold_lf_count[of idx "text" 0] by simp
  from assms(2) have "length m0 \<le> length (drop idx text)" by simp
  from fold_lf_count[OF this, of 0] assms(3)
  have 2: "fold (\<lambda>i n. if charCodeAt text (i + idx) = Some LineFeed then n + 1 else n)
             [0 ..< length m0] 0 = lf_count m0"
    by (simp add: charCodeAt_drop)
  show ?thesis
    unfolding getMultilineMatchRange_def crlf_match_range_def
    by (simp only: 1 2 assms(1) Let_def) simp
qed

lemma Searcher_next_wf:
  assumes "Searcher_next s t = (Some m, s')"
  shows "index m + length (match0 m) \<le> length t"
    and "match0 m = take (length (match0 m)) (drop (index m) t)"
proof -
  from Searcher_next_Some[OF assms] show "index m + length (match0 m) \<le> length t" by simp
  from Searcher_next_Some[OF assms] obtain l where "match0 m = take l (drop (index m) t)"
    by blast
  then show "match0 m = take (length (match0 m)) (drop (index m) t)"
    by (metis append_eq_conv_conj append_take_drop_id)
qed

lemma scan_all_wf:
  "m \<in> set (scan_all s t) \<Longrightarrow>
     index m + length (match0 m) \<le> length t
     \<and> match0 m = take (length (match0 m)) (drop (index m) t)"
proof (induction s t rule: scan_all.induct)
  case (1 s t)
  show ?case
  proof (cases "Searcher_next s t")
    case (Pair r s')
    show ?thesis
    proof (cases r)
      case None
      with Pair "1.prems" show ?thesis by (simp add: scan_all_Nil)
    next
      case (Some m1)
      with Pair have nx: "Searcher_next s t = (Some m1, s')" by simp
      from "1.prems" scan_all_Cons[OF nx] have "m = m1 \<or> m \<in> set (scan_all s' t)" by simp
      then show ?thesis
      proof
        assume "m = m1"
        with Searcher_next_wf[OF nx] show ?thesis by simp
      next
        assume "m \<in> set (scan_all s' t)"
        from "1.IH"[OF nx[symmetric] refl this] show ?thesis .
      qed
    qed
  qed
qed

lemma multilineFindMatch_crlf:
  assumes "getEOL model = CRLF_EOL" "m \<in> set (scan_all s t)"
  shows "multilineFindMatch model d t c m =
           createFindMatch (crlf_match_range model d t (index m) (match0 m)) m c"
  using scan_all_wf[OF assms(2)] getMultilineMatchRange_crlf[OF assms(1), of "index m" "match0 m" t d]
  by (simp add: multilineFindMatch_def)

lemma doFindMatchesMultiline_crlf:
  assumes "getEOL model = CRLF_EOL"
  shows "fst (doFindMatchesMultiline model rng s c l) =
     map (\<lambda>m. createFindMatch
                 (crlf_match_range model (getOffsetAt model (getStartPosition rng))
                    (getValueInRange model rng LF) (index m) (match0 m)) m c)
       (take (room l 0) (scan_all (Searcher_reset s 0) (getValueInRange model rng LF)))"
  unfolding doFindMatchesMultiline_scan
  by (rule map_cong[OF refl], rule multilineFindMatch_crlf[OF assms])
     (erule in_set_takeD)

lemma doFindNextMatchMultiline_pass_crlf:
  assumes "getEOL model = CRLF_EOL"
  shows "fst (doFindNextMatchMultiline_pass model start s c) =
     map_option
       (\<lambda>m. createFindMatch
               (crlf_match_range model (getOffsetAt model (new_Position (lineNumber start) 1))
                  (getValueInRange model
                     (new_Range (lineNumber start) 1 (getLineCount model)
                        (getLineMaxColumn model (getLineCount model))) LF)
                  (index m) (match0 m)) m c)
       (fst (Searcher_next (Searcher_reset s (column start - 1))
               (getValueInRange model
                  (new_Range (lineNumber start) 1 (getLineCount model)
                     (getLineMaxColumn model (getLineCount model))) LF)))"
proof -
  let ?t = "getValueInRange model
                  (new_Range (lineNumber start) 1 (getLineCount model)
                     (getLineMaxColumn model (getLineCount model))) LF"
  obtain r s' where nx: "Searcher_next (Searcher_reset s (column start - 1)) ?t = (r, s')"
    by (cases "Searcher_next (Searcher_reset s (column start - 1)) ?t")
  show ?thesis
  proof (cases r)
    case None
    with nx show ?thesis
      by (simp add: doFindNextMatchMultiline_pass_def Let_def new_Position_def)
  next
    case (Some m)
    with nx have nx': "Searcher_next (Searcher_reset s (column start - 1)) ?t = (Some m, s')"
      by simp
    from Searcher_next_wf[OF nx'] getMultilineMatchRange_crlf[OF assms, of "index m" "match0 m" ?t]
    have "getMultilineMatchRange model (getOffsetAt model (new_Position (lineNumber start) 1)) ?t
            (index m) (match0 m)
          = crlf_match_range model (getOffsetAt model (new_Position (lineNumber start) 1)) ?t
            (index m) (match0 m)" by simp
    with nx' show ?thesis
      by (simp add: doFindNextMatchMultiline_pass_def Let_def new_Position_def)
  qed
qed

text \<open>
  The example of section 8: the buffer with the content \<^verbatim>\<open>a\r\nb\<close> and the regex
  \<^verbatim>\<open>a\nb\<close>.
\<close>

definition a_b_crlf_buffer :: TextModel where
  "a_b_crlf_buffer = textModel_of [''a'', ''b''] True"

definition a_newline_b_query :: SearchParams where
  "a_newline_b_query =
     \<lparr>searchString = [CHR ''a'', Backslash, CHR ''n'', CHR ''b''], isRegex = True,
      matchCase = True, sp_wordSeparators = []\<rparr>"

lemmas eval_multiline = doFindMatchesMultiline_def doFindMatchesMultiline_loop.simps
  getMultilineMatchRange_def getStartPosition_def new_Position_def createFindMatch_def
  Searcher_next_unfold Searcher_reset_def new_Searcher_def RegExp_exec_def literal_matcher_def
  record_match_def charCodeAt_def Backslash_def regex_special_def escape_char_def
  isMultilineRegexSource_def a_b_crlf_buffer_def a_newline_b_query_def
  findNextMatch_def doFindNextMatchMultiline.simps doFindNextMatchMultiline_pass_def
  findPreviousMatch_def doFindPreviousMatchMultiline.simps LIMIT_FIND_COUNT_def

subsection \<open>The directional searches as lists of candidates\<close>


text \<open>
  Two searchers that differ at most in \<^verbatim>\<open>lastIndex\<close> and the remembered match: after
  a reset they are the same searcher.
\<close>

definition same_pattern :: "Searcher \<Rightarrow> Searcher \<Rightarrow> bool" where
  "same_pattern s s' \<longleftrightarrow> (\<forall>k. Searcher_reset s' k = Searcher_reset s k)"

lemma same_pattern_refl [simp]: "same_pattern s s"
  by (simp add: same_pattern_def)



















lemma same_pattern_sym: "same_pattern s s' \<Longrightarrow> same_pattern s' s"
  by (simp add: same_pattern_def)














lemma fm_range_createFindMatch [simp]: "fm_range (createFindMatch rng m c) = rng"
  by (simp add: createFindMatch_def)



subsection \<open>Exact substring scanning, in the words of the specification\<close>

text \<open>
  Section 8: the positions produced by exact substring scanning, from left to right
  without overlap: at an occurrence the scan continues after it, elsewhere one character
  further on.
\<close>

function substring_scan :: "string \<Rightarrow> string \<Rightarrow> nat \<Rightarrow> nat list" where
  "substring_scan pat text from =
     (if pat = [] \<or> length text < from + length pat then []
      else if take (length pat) (drop from text) = pat
      then from # substring_scan pat text (from + length pat)
      else substring_scan pat text (from + 1))"
  by pat_completeness auto
termination
proof (relation "measure (\<lambda>(pat, t, from). Suc (length t) - from)", goal_cases)
  case 1 show ?case by simp
next
  case (2 pat t "from")
  then show ?case by (cases pat) auto
next
  case (3 pat t "from")
  then show ?case by (cases pat) auto
qed

declare substring_scan.simps [simp del]

text \<open>The ranges of the occurrences in one line (or part of a line).\<close>

definition line_ranges :: "string \<Rightarrow> string \<Rightarrow> nat \<Rightarrow> nat \<Rightarrow> Range list" where
  "line_ranges pat text lineNo deltaOffset =
     map (\<lambda>k. new_Range lineNo (k + 1 + deltaOffset) lineNo (k + 1 + length pat + deltaOffset))
       (substring_scan pat text 0)"

lemma indexOf_nat: "indexOf t pat (int (nat x)) = indexOf t pat x"
  by (simp add: indexOf_def)

lemma indexOf_step:
  assumes "pat \<noteq> []"
  shows "indexOf t pat (int from) =
     (if length t < from + length pat then None
      else if take (length pat) (drop from t) = pat then Some from
      else indexOf t pat (int (from + 1)))"
proof (cases "length t < from + length pat")
  case True
  have "\<forall>k\<in>set [min from (length t) ..< Suc (length t)]. take (length pat) (drop k t) \<noteq> pat"
  proof
    fix k assume "k \<in> set [min from (length t) ..< Suc (length t)]"
    with True have "length t < k + length pat" using assms by (auto simp: min_def split: if_splits)
    moreover from assms have "0 < length pat" by simp
    ultimately have "min (length pat) (length t - k) < length pat" by arith
    then have "length (take (length pat) (drop k t)) < length pat" by simp
    then show "take (length pat) (drop k t) \<noteq> pat" by auto
  qed
  then have "indexOf t pat (int from) = None"
    by (simp only: indexOf_def find_None_iff nat_int) blast
  with True show ?thesis by simp
next
  case False
  with assms have lt: "from < length t" by (cases pat) auto
  let ?P = "\<lambda>k. take (length pat) (drop k t) = pat"
  from lt have m1: "min from (length t) = from" and m2: "min (from + 1) (length t) = from + 1"
    by simp_all
  from lt have U: "[from ..< Suc (length t)] = from # [from + 1 ..< Suc (length t)]"
    by (simp add: upt_conv_Cons del: upt_Suc)
  have L: "indexOf t pat (int from) = List.find ?P [from ..< Suc (length t)]"
    by (simp only: indexOf_def nat_int m1)
  have R: "indexOf t pat (int (from + 1)) = List.find ?P [from + 1 ..< Suc (length t)]"
    by (simp only: indexOf_def nat_int m2)
  from False show ?thesis unfolding L R U by (simp del: upt_Suc)
qed

lemma simple_scan_unfold:
  "pat \<noteq> [] \<Longrightarrow>
   simple_scan ws t pat lmi =
     (case indexOf t pat (lmi + int (length pat)) of
        None \<Rightarrow> []
      | Some k \<Rightarrow>
          if acceptsMatch ws t (length t) k (length pat)
          then k # simple_scan ws t pat (int k)
          else simple_scan ws t pat (int k))"
  by (subst simple_scan.simps) simp

lemma simple_scan_substring_scan:
  "pat \<noteq> [] \<Longrightarrow> nat (lmi + int (length pat)) = from \<Longrightarrow>
     simple_scan None t pat lmi = substring_scan pat t from"
proof (induction pat t "from" arbitrary: lmi rule: substring_scan.induct)
  case (1 pat t "from")
  from "1.prems" have ix: "indexOf t pat (lmi + int (length pat)) = indexOf t pat (int from)"
    using indexOf_nat[of t pat "lmi + int (length pat)"] by simp
  show ?case
  proof (cases "length t < from + length pat")
    case True
    with "1.prems" ix have "indexOf t pat (lmi + int (length pat)) = None"
      by (simp add: indexOf_step)
    with "1.prems" have "simple_scan None t pat lmi = []"
      by (subst simple_scan_unfold) simp_all
    with True show ?thesis
      by (subst substring_scan.simps) simp
  next
    case False
    show ?thesis
    proof (cases "take (length pat) (drop from t) = pat")
      case True
      from "1.prems" False True have "indexOf t pat (lmi + int (length pat)) = Some from"
        by (simp add: ix indexOf_step)
      with "1.prems" have "simple_scan None t pat lmi = from # simple_scan None t pat (int from)"
        by (subst simple_scan_unfold) (simp_all add: acceptsMatch_def)
      moreover have "simple_scan None t pat (int from) = substring_scan pat t (from + length pat)"
        by (rule "1.IH"(1)) (use "1.prems" False True in auto)
      ultimately show ?thesis using "1.prems" False True
        by (subst substring_scan.simps) simp
    next
      case neq: False
      let ?lmi' = "int (from + 1) - int (length pat)"
      from "1.prems" False neq
      have "indexOf t pat (lmi + int (length pat)) = indexOf t pat (?lmi' + int (length pat))"
        by (simp add: ix indexOf_step)
      with "1.prems" have "simple_scan None t pat lmi = simple_scan None t pat ?lmi'"
        by (subst simple_scan_unfold, simp, subst (2) simple_scan_unfold, simp) simp
      moreover have "simple_scan None t pat ?lmi' = substring_scan pat t (from + 1)"
        by (rule "1.IH"(2)) (use "1.prems" False neq in auto)
      ultimately show ?thesis using "1.prems" False neq
        by (subst substring_scan.simps) simp
    qed
  qed
qed

lemma RegExp_exec_literal:
  assumes "rx_matcher rx = literal_matcher pat" "pat \<noteq> []"
  shows "RegExp_exec rx t =
     (case indexOf t pat (int (lastIndex rx)) of
        None \<Rightarrow> (None, rx\<lparr>lastIndex := 0\<rparr>)
      | Some k \<Rightarrow> (Some \<lparr>index = k, match0 = pat, captures = []\<rparr>,
                   rx\<lparr>lastIndex := k + length pat\<rparr>))"
proof -
  have P: "(\<lambda>p. rx_matcher rx t p \<noteq> None) = (\<lambda>k. take (length pat) (drop k t) = pat)"
    by (auto simp: assms(1) literal_matcher_def)
  have F: "List.find (\<lambda>k. take (length pat) (drop k t) = pat) [lastIndex rx ..< Suc (length t)]
           = indexOf t pat (int (lastIndex rx))"
  proof (cases "lastIndex rx \<le> length t")
    case True
    then show ?thesis by (simp add: indexOf_def min_def del: upt_Suc)
  next
    case False
    with assms(2) show ?thesis by (simp add: indexOf_def min_def)
  qed
  show ?thesis
  proof (cases "indexOf t pat (int (lastIndex rx))")
    case None
    then show ?thesis unfolding RegExp_exec_def P F by simp
  next
    case (Some k)
    from indexOf_Some(3)[OF Some] have m: "take (length pat) (drop k t) = pat" .
    then have "rx_matcher rx t k = Some (length pat, [])"
      by (simp add: assms(1) literal_matcher_def)
    moreover from arg_cong[OF m, of length]
    have "min (length t - k) (length pat) = length pat" by (simp add: min.commute)
    ultimately show ?thesis using Some m unfolding RegExp_exec_def P F by simp
  qed
qed

text \<open>
  The searcher of a literal pattern when the loop of the fast path is at
  \<^verbatim>\<open>lastMatchIndex\<close>.
\<close>

definition literal_state :: "Searcher \<Rightarrow> string \<Rightarrow> int \<Rightarrow> bool" where
  "literal_state s pat lmi \<longleftrightarrow>
     wordSeparators s = None \<and> rx_matcher (searchRegex s) = literal_matcher pat
     \<and> lastIndex (searchRegex s) = nat (lmi + int (length pat))
     \<and> (lmi = - int (length pat) \<and> prevMatchStartIndex s = -1 \<and> prevMatchLength s = 0
        \<or> 0 \<le> lmi \<and> prevMatchStartIndex s = lmi \<and> prevMatchLength s = length pat)"

lemma scan_all_literal:
  "pat \<noteq> [] \<Longrightarrow> literal_state s pat lmi \<Longrightarrow>
   scan_all s t = map (\<lambda>k. \<lparr>index = k, match0 = pat, captures = []\<rparr>) (simple_scan None t pat lmi)"
proof (induction "None :: WordCharacterClassifier option" t pat lmi arbitrary: s rule: simple_scan.induct)
  case (1 t pat lmi)
  note st = "1.prems"(2)[unfolded literal_state_def]
  note ne = "1.prems"(1)
  from st have nn: "0 \<le> lmi + int (length pat)" by auto
  with st have li: "int (lastIndex (searchRegex s)) = lmi + int (length pat)" by auto
  show ?case
  proof (cases "indexOf t pat (lmi + int (length pat))")
    case None
    have "fst (Searcher_next s t) = None"
    proof (cases "prevMatchStartIndex s + int (prevMatchLength s) = int (length t)")
      case True
      then show ?thesis by (simp add: Searcher_next_at_end)
    next
      case False
      with st ne None show ?thesis
        by (subst Searcher_next_unfold)
           (simp add: RegExp_exec_literal[OF _ ne] nn)
    qed
    moreover from None ne have "simple_scan None t pat lmi = []"
      by (subst simple_scan_unfold) simp_all
    ultimately show ?thesis by (simp add: scan_all_Nil)
  next
    case (Some k)
    note pr = indexOf_Some_progress[OF Some ne]
    let ?m = "\<lparr>index = k, match0 = pat, captures = []\<rparr>"
    let ?rx = "(searchRegex s)\<lparr>lastIndex := k + length pat\<rparr>"
    from st have "prevMatchStartIndex s + int (prevMatchLength s) = -1
                  \<or> prevMatchStartIndex s + int (prevMatchLength s) = lmi + int (length pat)"
      by auto
    with pr ne have nend: "prevMatchStartIndex s + int (prevMatchLength s) \<noteq> int (length t)"
      by (cases pat) auto
    from st Some ne have ex: "RegExp_exec (searchRegex s) t = (Some ?m, ?rx)"
      by (simp add: RegExp_exec_literal[OF _ ne] nn)
    from st have "prevMatchStartIndex s = -1 \<or> prevMatchStartIndex s = lmi" by blast
    with pr(1) have "int k \<noteq> prevMatchStartIndex s" by arith
    then have nrep: "\<not> (int (index ?m) = prevMatchStartIndex s \<and> length (match0 ?m) = prevMatchLength s)"
      by simp
    from Searcher_next_rejected[OF nend ex nrep] st
    have nx: "Searcher_next s t = (Some ?m, record_match s ?rx ?m)"
      by (simp add: acceptsMatch_def)
    have st': "literal_state (record_match s ?rx ?m) pat (int k)"
      using st by (simp add: literal_state_def record_match_def nat_add_distrib)
    have acc: "acceptsMatch None t (length t) k (length pat)" by (simp add: acceptsMatch_def)
    have S: "simple_scan None t pat lmi = k # simple_scan None t pat (int k)"
      using Some ne acc by (subst simple_scan_unfold) simp_all
    from "1.hyps"(1)[OF ne Some acc ne st'] scan_all_Cons[OF nx]
    show ?thesis by (simp add: S)
  qed
qed


lemma gather_map: "map f (gather l r xss) = gather l (map f r) (map (map f) xss)"
  by (induction xss arbitrary: r) (simp_all add: take_map)

lemma gather_take:
  "1 \<le> l \<Longrightarrow> gather l (take (nat l) R) xss = take (nat l) (R @ concat xss)"
proof (induction xss arbitrary: R)
  case Nil show ?case by simp
next
  case (Cons xs xss)
  show ?case
  proof (cases "int (length (take (nat l) R)) < l")
    case True
    then have R: "take (nat l) R = R" and lt: "length R < nat l" by auto
    from lt Cons.prems have rm: "room l (length R) = nat l - length R"
      by (simp add: room_def)
    have e: "R @ take (nat l - length R) xs = take (nat l) (R @ xs)" using lt by simp
    have "gather l (take (nat l) R) (xs # xss) = gather l (R @ take (nat l - length R) xs) xss"
      using True by (simp only: gather.simps R rm if_True)
    also have "\<dots> = gather l (take (nat l) (R @ xs)) xss" by (simp only: e)
    also have "\<dots> = take (nat l) ((R @ xs) @ concat xss)" by (rule Cons.IH[OF Cons.prems])
    finally show ?thesis by (simp del: take_append)
  next
    case False
    then have ge: "nat l \<le> length R" by auto
    from False have "gather l (take (nat l) R) (xs # xss) = take (nat l) R"
      by (simp only: gather.simps if_False)
    with ge show ?thesis by simp
  qed
qed

lemma line_ranges_Nil [simp]: "line_ranges [] t ln d = []"
  by (simp add: line_ranges_def substring_scan.simps)

lemma line_matches_literal:
  assumes "sd_wordSeparators sd = None" "rx_matcher (regex sd) = literal_matcher pat"
    and "pat \<noteq> []"
  shows "simpleSearch sd = Some pat \<Longrightarrow>
           line_matches sd t ln d False = map (simpleFindMatch ln d (length pat))
                                            (simple_scan None t pat (- int (length pat)))"
    and "c \<or> simpleSearch sd = None \<Longrightarrow>
           line_matches sd t ln d c =
             map (\<lambda>k. lineFindMatch ln d c \<lparr>index = k, match0 = pat, captures = []\<rparr>)
               (simple_scan None t pat (- int (length pat)))"
proof -
  assume "simpleSearch sd = Some pat"
  with assms show "line_matches sd t ln d False = map (simpleFindMatch ln d (length pat))
                                            (simple_scan None t pat (- int (length pat)))"
    by (simp add: line_matches_def usesSimpleSearch_def)
next
  assume "c \<or> simpleSearch sd = None"
  then have u: "\<not> usesSimpleSearch sd c" by (auto simp: usesSimpleSearch_def)
  have "literal_state (Searcher_reset (new_Searcher None (regex sd)) 0) pat (- int (length pat))"
    using assms by (simp add: literal_state_def Searcher_reset_def new_Searcher_def)
  from scan_all_literal[OF assms(3) this, of t] u assms(1)
  show "line_matches sd t ln d c =
             map (\<lambda>k. lineFindMatch ln d c \<lparr>index = k, match0 = pat, captures = []\<rparr>)
               (simple_scan None t pat (- int (length pat)))"
    by (simp add: line_matches_def comp_def)
qed

lemma line_matches_literal_ranges:
  assumes "sd_wordSeparators sd = None" "rx_matcher (regex sd) = literal_matcher pat"
    and "pat \<noteq> []" "simpleSearch sd = Some pat"
  shows "map fm_range (line_matches sd t ln d c) = line_ranges pat t ln d"
proof -
  have S: "simple_scan None t pat (- int (length pat)) = substring_scan pat t 0"
    by (rule simple_scan_substring_scan[OF assms(3)]) simp
  show ?thesis
  proof (cases c)
    case True
    with line_matches_literal(2)[OF assms(1-3), of c t ln d] show ?thesis
      by (simp add: S line_ranges_def lineFindMatch_def comp_def)
  next
    case False
    with line_matches_literal(1)[OF assms(1-3) assms(4), of t ln d] show ?thesis
      by (simp add: S line_ranges_def simpleFindMatch_def comp_def)
  qed
qed

lemma parseSearchRequest_literal:
  assumes "\<not> isRegex p" "matchCase p" "sp_wordSeparators p = []" "searchString p \<noteq> []"
    "LineFeed \<notin> set (searchString p)"
    "compilePattern env (searchString p) False True False = Some (literal_matcher (searchString p))"
  shows "parseSearchRequest env p =
           Some \<lparr>regex = \<lparr>rx_matcher = literal_matcher (searchString p), multiline = False,
                            lastIndex = 0\<rparr>,
                  sd_wordSeparators = None, simpleSearch = Some (searchString p)\<rparr>"
  using assms by (simp add: parseSearchRequest_def createRegExp_def Let_def)

text \<open>The ranges of the occurrences in the lines of a search range, line after line.\<close>

definition range_ranges :: "TextModel \<Rightarrow> string \<Rightarrow> Range \<Rightarrow> Range list" where
  "range_ranges model pat rng =
     (if startLineNumber rng = endLineNumber rng
      then line_ranges pat
             (substring (getLineContent model (startLineNumber rng))
                (startColumn rng - 1) (endColumn rng - 1))
             (startLineNumber rng) (startColumn rng - 1)
      else line_ranges pat
             (substringFrom (getLineContent model (startLineNumber rng)) (startColumn rng - 1))
             (startLineNumber rng) (startColumn rng - 1)
           @ concat (map (\<lambda>k. line_ranges pat (getLineContent model k) k 0)
                       [startLineNumber rng + 1 ..< endLineNumber rng])
           @ line_ranges pat
               (substring (getLineContent model (endLineNumber rng)) 0 (endColumn rng - 1))
               (endLineNumber rng) 0)"

lemma doFindMatchesLineByLine_literal_gather:
  assumes "sd_wordSeparators sd = None" "rx_matcher (regex sd) = literal_matcher pat"
    and "pat \<noteq> []" "simpleSearch sd = Some pat"
  shows "map fm_range (doFindMatchesLineByLine model rng sd c l) =
     (if startLineNumber rng = endLineNumber rng
      then take (room l 0)
             (line_ranges pat
                (substring (getLineContent model (startLineNumber rng))
                   (startColumn rng - 1) (endColumn rng - 1))
                (startLineNumber rng) (startColumn rng - 1))
      else gather l
             (take (room l 0)
                (line_ranges pat
                   (substringFrom (getLineContent model (startLineNumber rng))
                      (startColumn rng - 1))
                   (startLineNumber rng) (startColumn rng - 1)))
             (map (\<lambda>k. line_ranges pat (getLineContent model k) k 0)
                [startLineNumber rng + 1 ..< endLineNumber rng]
              @ [line_ranges pat
                   (substring (getLineContent model (endLineNumber rng)) 0 (endColumn rng - 1))
                   (endLineNumber rng) 0]))"
proof -
  note R = line_matches_literal_ranges[OF assms(1-4)]
  have 1: "map fm_range (doFindMatchesLineByLine model rng sd c l) =
     (if startLineNumber rng = endLineNumber rng
      then take (room l 0)
             (map fm_range (line_matches sd
                (substring (getLineContent model (startLineNumber rng))
                   (startColumn rng - 1) (endColumn rng - 1))
                (startLineNumber rng) (startColumn rng - 1) c))
      else gather l
             (take (room l 0)
                (map fm_range (line_matches sd
                   (substringFrom (getLineContent model (startLineNumber rng))
                      (startColumn rng - 1))
                   (startLineNumber rng) (startColumn rng - 1) c)))
             (map (\<lambda>k. map fm_range (line_matches sd (getLineContent model k) k 0 c))
                [startLineNumber rng + 1 ..< endLineNumber rng]
              @ [map fm_range (line_matches sd
                   (substring (getLineContent model (endLineNumber rng)) 0 (endColumn rng - 1))
                   (endLineNumber rng) 0 c)]))"
    unfolding doFindMatchesLineByLine_scan
    by (simp add: gather_map take_map[symmetric] comp_def del: upt_Suc)
  show ?thesis unfolding 1 R ..
qed

lemma doFindMatchesLineByLine_literal:
  assumes "sd_wordSeparators sd = None" "rx_matcher (regex sd) = literal_matcher pat"
    and "pat \<noteq> []" "simpleSearch sd = Some pat" "1 \<le> l"
  shows "map fm_range (doFindMatchesLineByLine model rng sd c l)
           = take (nat l) (range_ranges model pat rng)"
proof -
  from assms(5) have rm: "room l 0 = nat l" by (simp add: room_def)
  show ?thesis
    unfolding doFindMatchesLineByLine_literal_gather[OF assms(1-4)] rm
      gather_take[OF assms(5)] range_ranges_def
    by (simp del: upt_Suc take_append)
qed

lemma findMatchesInLine_literal_paths:
  assumes "sd_wordSeparators sd = None" "rx_matcher (regex sd) = literal_matcher pat"
    and "pat \<noteq> []" "simpleSearch sd = Some pat"
  shows "findMatchesInLine sd t ln d (length r) r False l
           = findMatchesInLine (sd\<lparr>simpleSearch := None\<rparr>) t ln d (length r) r False l"
proof -
  have "line_matches (sd\<lparr>simpleSearch := None\<rparr>) t ln d False =
          map (\<lambda>k. lineFindMatch ln d False \<lparr>index = k, match0 = pat, captures = []\<rparr>)
               (simple_scan None t pat (- int (length pat)))"
    by (rule line_matches_literal(2)) (use assms in simp_all)
  also have "\<dots> = map (simpleFindMatch ln d (length pat))
                      (simple_scan None t pat (- int (length pat)))"
    by (simp add: lineFindMatch_def simpleFindMatch_def createFindMatch_def)
  also have "\<dots> = line_matches sd t ln d False"
    by (rule line_matches_literal(1)[symmetric]) (use assms in simp_all)
  finally show ?thesis by (simp add: findMatchesInLine_scan)
qed

subsection \<open>The order of positions\<close>


















section \<open>The claims\<close>

text \<open>
  C2. When a word classifier is configured, a raw match at start index \<open>i\<close> with length
  \<open>L\<close> in a text \<open>t\<close> is accepted if and only if both edges are word boundaries. The left
  edge is a boundary iff \<open>i = 0\<close>, or the character at \<open>i - 1\<close> is not Regular, or
  \<open>L > 0\<close> and the character at \<open>i\<close> is not Regular; the right edge is a boundary iff
  \<open>i + L\<close> is the length of the text, or the character at \<open>i + L\<close> is not Regular, or
  \<open>L > 0\<close> and the character at \<open>i + L - 1\<close> is not Regular. A zero-length match at
  the very start (end) of the text satisfies the left (right) edge. In
  \<^verbatim>\<open>Searcher.next\<close>, a raw match that is not a repeat is the one returned exactly when it
  passes this test.
\<close>

theorem word_boundary_test:
  "acceptsMatch (Some ws) t (length t) i L =
     ((i = 0 \<or> ws (charCodeAt t (i - 1)) \<noteq> Regular
         \<or> (L > 0 \<and> ws (charCodeAt t i) \<noteq> Regular))
      \<and> (i + L = length t \<or> ws (charCodeAt t (i + L)) \<noteq> Regular
         \<or> (L > 0 \<and> ws (charCodeAt t (i + L - 1)) \<noteq> Regular)))
   \<and> leftIsWordBounday ws t (length t) i L =
       (i = 0 \<or> ws (charCodeAt t (i - 1)) \<noteq> Regular
         \<or> (L > 0 \<and> ws (charCodeAt t i) \<noteq> Regular))
   \<and> rightIsWordBounday ws t (length t) i L =
       (i + L = length t \<or> ws (charCodeAt t (i + L)) \<noteq> Regular
         \<or> (L > 0 \<and> ws (charCodeAt t (i + L - 1)) \<noteq> Regular))
   \<and> leftIsWordBounday ws t (length t) 0 0
   \<and> rightIsWordBounday ws t (length t) (length t) 0
   \<and> (wordSeparators s = Some ws
        \<and> prevMatchStartIndex s + int (prevMatchLength s) \<noteq> int (length t)
        \<and> RegExp_exec (searchRegex s) t = (Some m, rx')
        \<and> \<not> (int (index m) = prevMatchStartIndex s \<and> length (match0 m) = prevMatchLength s)
      \<longrightarrow> (fst (Searcher_next s t) = Some m)
           = isValidMatch ws t (length t) (index m) (length (match0 m)))"
proof -
  have L: "leftIsWordBounday ws t (length t) i L =
       (i = 0 \<or> ws (charCodeAt t (i - 1)) \<noteq> Regular
         \<or> (L > 0 \<and> ws (charCodeAt t i) \<noteq> Regular))" for i L
    by (simp add: leftIsWordBounday_def)
  have R: "rightIsWordBounday ws t (length t) i L =
       (i + L = length t \<or> ws (charCodeAt t (i + L)) \<noteq> Regular
         \<or> (L > 0 \<and> ws (charCodeAt t (i + L - 1)) \<noteq> Regular))" for i L
    by (simp add: rightIsWordBounday_def)
  have A: "acceptsMatch (Some ws) t (length t) i L =
     (leftIsWordBounday ws t (length t) i L \<and> rightIsWordBounday ws t (length t) i L)"
    by (simp add: acceptsMatch_def isValidMatch_def)
  have S: "(fst (Searcher_next s t) = Some m)
           = isValidMatch ws t (length t) (index m) (length (match0 m))"
    if ws: "wordSeparators s = Some ws"
      and ne: "prevMatchStartIndex s + int (prevMatchLength s) \<noteq> int (length t)"
      and ex: "RegExp_exec (searchRegex s) t = (Some m, rx')"
      and ns: "\<not> (int (index m) = prevMatchStartIndex s \<and> length (match0 m) = prevMatchLength s)"
  proof (cases "isValidMatch ws t (length t) (index m) (length (match0 m))")
    case True
    with Searcher_next_rejected[OF ne ex ns] ws show ?thesis by (simp add: acceptsMatch_def)
  next
    case False
    with Searcher_next_rejected[OF ne ex ns] ws
    have rec: "Searcher_next s t = Searcher_next (record_match s rx' m) t"
      by (simp add: acceptsMatch_def)
    have "fst (Searcher_next (record_match s rx' m) t) \<noteq> Some m"
    proof
      assume "fst (Searcher_next (record_match s rx' m) t) = Some m"
      then obtain s' where "Searcher_next (record_match s rx' m) t = (Some m, s')"
        by (cases "Searcher_next (record_match s rx' m) t") simp
      from Searcher_next_inv[OF this exec_step_inv2[OF ex]]
      show False by (simp add: record_match_def)
    qed
    with rec False show ?thesis by simp
  qed
  have A': "acceptsMatch (Some ws) t (length t) i L =
     ((i = 0 \<or> ws (charCodeAt t (i - 1)) \<noteq> Regular
         \<or> (L > 0 \<and> ws (charCodeAt t i) \<noteq> Regular))
      \<and> (i + L = length t \<or> ws (charCodeAt t (i + L)) \<noteq> Regular
         \<or> (L > 0 \<and> ws (charCodeAt t (i + L - 1)) \<noteq> Regular)))"
    unfolding A L R ..
  have L0: "leftIsWordBounday ws t (length t) 0 0" by (simp add: L)
  have R0: "rightIsWordBounday ws t (length t) (length t) 0" by (simp add: R)
  show ?thesis
    by (intro conjI impI, rule A', rule L, rule R, rule L0, rule R0)
       (elim conjE, rule S, assumption+)
qed

theorem word_boundary_test_witness:
  "wordSeparators (Searcher_reset (new_Searcher (Some (classifier_of_separators '',.''))
               \<lparr>rx_matcher = literal_matcher ''cat'', multiline = False, lastIndex = 0\<rparr>) 0)
     = Some (classifier_of_separators '',.'')
   \<and> RegExp_exec \<lparr>rx_matcher = literal_matcher ''cat'', multiline = False, lastIndex = 0\<rparr>
         ''concatenate cat scatter''
       = (Some \<lparr>index = 3, match0 = ''cat'', captures = []\<rparr>,
          \<lparr>rx_matcher = literal_matcher ''cat'', multiline = False, lastIndex = 6\<rparr>)
   \<and> \<not> acceptsMatch (Some (classifier_of_separators '',.'')) ''concatenate cat scatter''
          (length ''concatenate cat scatter'') 3 3
   \<and> fst (Searcher_next
            (Searcher_reset (new_Searcher (Some (classifier_of_separators '',.''))
               \<lparr>rx_matcher = literal_matcher ''cat'', multiline = False, lastIndex = 0\<rparr>) 0)
            ''concatenate cat scatter'')
       \<noteq> Some \<lparr>index = 3, match0 = ''cat'', captures = []\<rparr>"
  using word_boundary_test[of "classifier_of_separators '',.''" "''concatenate cat scatter''" 3 3
      "Searcher_reset (new_Searcher (Some (classifier_of_separators '',.''))
               \<lparr>rx_matcher = literal_matcher ''cat'', multiline = False, lastIndex = 0\<rparr>) 0"
      "\<lparr>index = 3, match0 = ''cat'', captures = []\<rparr>"
      "\<lparr>rx_matcher = literal_matcher ''cat'', multiline = False, lastIndex = 6\<rparr>"]
  by (simp add: Searcher_reset_def new_Searcher_def RegExp_exec_def literal_matcher_def
      isValidMatch_def leftIsWordBounday_def rightIsWordBounday_def charCodeAt_def
      classifier_of_separators_def Space_def Tab_def)


text \<open>
  C5. \<^verbatim>\<open>Searcher.next\<close> never returns two consecutive matches with the same start offset
  and length: when the engine produces a match whose start offset and length are those
  of the match remembered since the last reset (accepted or rejected), \<^verbatim>\<open>next\<close> returns
  null; two matches returned in a row on a text start at increasing offsets. Scanning a
  text ends after finitely many calls for every pattern, zero-width ones included: from
  any state of the searcher call number \<open>scan_measure t s + 1\<close> at the latest returns
  null, and after a reset call number \<open>length t + 2\<close> at the latest, so a scan sees at most
  \<open>length t + 1\<close> matches.
\<close>

theorem no_repeated_match:
  "(prevMatchStartIndex s1 + int (prevMatchLength s1) \<noteq> int (length t1)
      \<and> RegExp_exec (searchRegex s1) t1 = (Some m1, rx1)
      \<and> int (index m1) = prevMatchStartIndex s1 \<and> length (match0 m1) = prevMatchLength s1
    \<longrightarrow> Searcher_next s1 t1 = (None, s1\<lparr>searchRegex := rx1\<rparr>))
   \<and> (Searcher_next s t = (Some m, s') \<and> Searcher_next s' t = (Some m', s'')
    \<longrightarrow> index m < index m'
        \<and> (index m, length (match0 m)) \<noteq> (index m', length (match0 m')))
   \<and> fst (nth_next (scan_measure t s) s t) = None
   \<and> fst (nth_next (Suc (length t)) (Searcher_reset s c) t) = None
   \<and> length (scan_all (Searcher_reset s c) t) \<le> Suc (length t)"
proof (intro conjI impI)
  assume "prevMatchStartIndex s1 + int (prevMatchLength s1) \<noteq> int (length t1)
      \<and> RegExp_exec (searchRegex s1) t1 = (Some m1, rx1)
      \<and> int (index m1) = prevMatchStartIndex s1 \<and> length (match0 m1) = prevMatchLength s1"
  then show "Searcher_next s1 t1 = (None, s1\<lparr>searchRegex := rx1\<rparr>)"
    using Searcher_next_repeat[of s1 t1 m1 rx1] by blast
next
  assume a: "Searcher_next s t = (Some m, s') \<and> Searcher_next s' t = (Some m', s'')"
  then have inv: "scan_inv t s'" using Searcher_next_Some_inv2 by blast
  from a have p: "prevMatchStartIndex s' = int (index m)" using Searcher_next_Some by blast
  from a inv have "prevMatchStartIndex s' < int (index m')" using Searcher_next_inv by blast
  with p show "index m < index m'" by simp
  then show "(index m, length (match0 m)) \<noteq> (index m', length (match0 m'))" by simp
next
  show "fst (nth_next (scan_measure t s) s t) = None" by (rule nth_next_measure) simp
next
  have "int (length (scan_all (Searcher_reset s c) t)) \<le> int (length t) - prevMatchStartIndex (Searcher_reset s c)"
    by (rule scan_all_length[OF scan_inv_reset])
  then show "length (scan_all (Searcher_reset s c) t) \<le> Suc (length t)"
    by (simp add: Searcher_reset_def)
next
  show "fst (nth_next (Suc (length t)) (Searcher_reset s c) t) = None"
    by (rule nth_next_bound[OF scan_inv_reset]) (simp add: Searcher_reset_def)
qed


theorem no_repeated_match_witness:
  "prevMatchStartIndex
      \<lparr>wordSeparators = None,
       searchRegex = \<lparr>rx_matcher = literal_matcher [], multiline = False, lastIndex = 0\<rparr>,
       prevMatchStartIndex = 0, prevMatchLength = 0\<rparr> + int 0 \<noteq> int (length ''ab'')
   \<and> RegExp_exec \<lparr>rx_matcher = literal_matcher [], multiline = False, lastIndex = 0\<rparr> ''ab''
       = (Some \<lparr>index = 0, match0 = [], captures = []\<rparr>,
          \<lparr>rx_matcher = literal_matcher [], multiline = False, lastIndex = 0\<rparr>)
   \<and> Searcher_next
        \<lparr>wordSeparators = None,
         searchRegex = \<lparr>rx_matcher = literal_matcher [], multiline = False, lastIndex = 0\<rparr>,
         prevMatchStartIndex = 0, prevMatchLength = 0\<rparr> ''ab''
       = (None,
          \<lparr>wordSeparators = None,
           searchRegex = \<lparr>rx_matcher = literal_matcher [], multiline = False, lastIndex = 0\<rparr>,
           prevMatchStartIndex = 0, prevMatchLength = 0\<rparr>)
   \<and> Searcher_next
        \<lparr>wordSeparators = None,
         searchRegex = \<lparr>rx_matcher = literal_matcher ''a'', multiline = False, lastIndex = 0\<rparr>,
         prevMatchStartIndex = -1, prevMatchLength = 0\<rparr> ''aa''
       = (Some \<lparr>index = 0, match0 = ''a'', captures = []\<rparr>,
          \<lparr>wordSeparators = None,
           searchRegex = \<lparr>rx_matcher = literal_matcher ''a'', multiline = False, lastIndex = 1\<rparr>,
           prevMatchStartIndex = 0, prevMatchLength = 1\<rparr>)
   \<and> Searcher_next
        \<lparr>wordSeparators = None,
         searchRegex = \<lparr>rx_matcher = literal_matcher ''a'', multiline = False, lastIndex = 1\<rparr>,
         prevMatchStartIndex = 0, prevMatchLength = 1\<rparr> ''aa''
       = (Some \<lparr>index = 1, match0 = ''a'', captures = []\<rparr>,
          \<lparr>wordSeparators = None,
           searchRegex = \<lparr>rx_matcher = literal_matcher ''a'', multiline = False, lastIndex = 2\<rparr>,
           prevMatchStartIndex = 1, prevMatchLength = 1\<rparr>)
   \<and> index \<lparr>index = 0, match0 = ''a'', captures = []\<rparr>
       < index \<lparr>index = 1, match0 = ''a'', captures = []\<rparr>"
  using no_repeated_match[of
      "\<lparr>wordSeparators = None,
        searchRegex = \<lparr>rx_matcher = literal_matcher [], multiline = False, lastIndex = 0\<rparr>,
        prevMatchStartIndex = 0, prevMatchLength = 0\<rparr>"
      "''ab''" "\<lparr>index = 0, match0 = [], captures = []\<rparr>"
      "\<lparr>rx_matcher = literal_matcher [], multiline = False, lastIndex = 0\<rparr>"
      "\<lparr>wordSeparators = None,
        searchRegex = \<lparr>rx_matcher = literal_matcher ''a'', multiline = False, lastIndex = 0\<rparr>,
        prevMatchStartIndex = -1, prevMatchLength = 0\<rparr>"
      "''aa''" "\<lparr>index = 0, match0 = ''a'', captures = []\<rparr>"
      "\<lparr>wordSeparators = None,
        searchRegex = \<lparr>rx_matcher = literal_matcher ''a'', multiline = False, lastIndex = 1\<rparr>,
        prevMatchStartIndex = 0, prevMatchLength = 1\<rparr>"
      "\<lparr>index = 1, match0 = ''a'', captures = []\<rparr>"
      "\<lparr>wordSeparators = None,
        searchRegex = \<lparr>rx_matcher = literal_matcher ''a'', multiline = False, lastIndex = 2\<rparr>,
        prevMatchStartIndex = 1, prevMatchLength = 1\<rparr>"]
  by (simp add: Searcher_next_unfold RegExp_exec_def literal_matcher_def acceptsMatch_def
      record_match_def)


text \<open>
  C10. Once \<^verbatim>\<open>Searcher.next\<close> has seen a raw match (accepted or rejected) whose end is
  the length of the text, every later call on that text returns null until \<^verbatim>\<open>reset\<close>:
  a searcher whose remembered match ends at the end of the text returns null and stays
  as it is; a raw match ending there leaves the searcher in such a state, whether it is
  returned or rejected (and then the same call returns null). So within one scan only
  the last match can end at the end of the text, and no zero-width match at the end of
  the text is reported after a non-empty match ending there.
\<close>

theorem end_of_text_stops_scan:
  "(prevMatchStartIndex s1 + int (prevMatchLength s1) = int (length t)
      \<longrightarrow> (\<forall>k. nth_next k s1 t = (None, s1)))
   \<and> (prevMatchStartIndex s2 + int (prevMatchLength s2) \<noteq> int (length t)
      \<and> RegExp_exec (searchRegex s2) t = (Some m2, rx2)
      \<and> \<not> (int (index m2) = prevMatchStartIndex s2 \<and> length (match0 m2) = prevMatchLength s2)
      \<and> index m2 + length (match0 m2) = length t
      \<longrightarrow> Searcher_next s2 t =
            (if acceptsMatch (wordSeparators s2) t (length t) (index m2) (length (match0 m2))
             then Some m2 else None, record_match s2 rx2 m2)
          \<and> (\<forall>k. nth_next k (record_match s2 rx2 m2) t = (None, record_match s2 rx2 m2)))
   \<and> (Searcher_next s t = (Some m, s') \<and> index m + length (match0 m) = length t
      \<longrightarrow> (\<forall>k. nth_next k s' t = (None, s')))
   \<and> (\<forall>i<length (scan_all s t).
         index (scan_all s t ! i) + length (match0 (scan_all s t ! i)) = length t
         \<longrightarrow> Suc i = length (scan_all s t))
   \<and> \<not> (\<exists>i j. i < j \<and> j < length (scan_all s t)
           \<and> index (scan_all s t ! i) + length (match0 (scan_all s t ! i)) = length t
           \<and> match0 (scan_all s t ! i) \<noteq> []
           \<and> index (scan_all s t ! j) = length t \<and> match0 (scan_all s t ! j) = [])"
proof (intro conjI impI allI notI)
  fix k
  assume "prevMatchStartIndex s1 + int (prevMatchLength s1) = int (length t)"
  then show "nth_next k s1 t = (None, s1)" by (rule nth_next_at_end)
next
  assume a: "prevMatchStartIndex s2 + int (prevMatchLength s2) \<noteq> int (length t)
      \<and> RegExp_exec (searchRegex s2) t = (Some m2, rx2)
      \<and> \<not> (int (index m2) = prevMatchStartIndex s2 \<and> length (match0 m2) = prevMatchLength s2)
      \<and> index m2 + length (match0 m2) = length t"
  then have e: "prevMatchStartIndex (record_match s2 rx2 m2)
                 + int (prevMatchLength (record_match s2 rx2 m2)) = int (length t)"
    by (simp add: record_match_def)
  from a have "Searcher_next s2 t =
           (if acceptsMatch (wordSeparators s2) t (length t) (index m2) (length (match0 m2))
            then (Some m2, record_match s2 rx2 m2)
            else Searcher_next (record_match s2 rx2 m2) t)"
    using Searcher_next_rejected[of s2 t m2 rx2] by blast
  with Searcher_next_at_end[OF e]
  show "Searcher_next s2 t =
            (if acceptsMatch (wordSeparators s2) t (length t) (index m2) (length (match0 m2))
             then Some m2 else None, record_match s2 rx2 m2)"
    by simp
  fix k
  from e show "nth_next k (record_match s2 rx2 m2) t = (None, record_match s2 rx2 m2)"
    by (rule nth_next_at_end)
next
  fix k
  assume a: "Searcher_next s t = (Some m, s') \<and> index m + length (match0 m) = length t"
  then have "prevMatchStartIndex s' + int (prevMatchLength s') = int (length t)"
    using Searcher_next_Some[of s t m s'] by simp
  then show "nth_next k s' t = (None, s')" by (rule nth_next_at_end)
next
  fix i
  assume "i < length (scan_all s t)"
    "index (scan_all s t ! i) + length (match0 (scan_all s t ! i)) = length t"
  then show "Suc i = length (scan_all s t)" by (rule scan_all_end)
next
  assume "\<exists>i j. i < j \<and> j < length (scan_all s t)
           \<and> index (scan_all s t ! i) + length (match0 (scan_all s t ! i)) = length t
           \<and> match0 (scan_all s t ! i) \<noteq> []
           \<and> index (scan_all s t ! j) = length t \<and> match0 (scan_all s t ! j) = []"
  then obtain i j where ij: "i < j" "j < length (scan_all s t)"
    "index (scan_all s t ! i) + length (match0 (scan_all s t ! i)) = length t" by blast
  then have "i < length (scan_all s t)" by simp
  from scan_all_end[OF this ij(3)] ij(1,2) show False by simp
qed

theorem end_of_text_stops_scan_witness:
  "prevMatchStartIndex
      \<lparr>wordSeparators = None,
       searchRegex = \<lparr>rx_matcher = literal_matcher ''b'', multiline = False, lastIndex = 2\<rparr>,
       prevMatchStartIndex = 1, prevMatchLength = 1\<rparr> + int 1 = int (length ''ab'')
   \<and> RegExp_exec \<lparr>rx_matcher = literal_matcher ''b'', multiline = False, lastIndex = 0\<rparr> ''ab''
       = (Some \<lparr>index = 1, match0 = ''b'', captures = []\<rparr>,
          \<lparr>rx_matcher = literal_matcher ''b'', multiline = False, lastIndex = 2\<rparr>)
   \<and> Searcher_next
        \<lparr>wordSeparators = None,
         searchRegex = \<lparr>rx_matcher = literal_matcher ''b'', multiline = False, lastIndex = 0\<rparr>,
         prevMatchStartIndex = -1, prevMatchLength = 0\<rparr> ''ab''
       = (Some \<lparr>index = 1, match0 = ''b'', captures = []\<rparr>,
          \<lparr>wordSeparators = None,
           searchRegex = \<lparr>rx_matcher = literal_matcher ''b'', multiline = False, lastIndex = 2\<rparr>,
           prevMatchStartIndex = 1, prevMatchLength = 1\<rparr>)
   \<and> nth_next 3
        \<lparr>wordSeparators = None,
         searchRegex = \<lparr>rx_matcher = literal_matcher ''b'', multiline = False, lastIndex = 2\<rparr>,
         prevMatchStartIndex = 1, prevMatchLength = 1\<rparr> ''ab''
       = (None,
          \<lparr>wordSeparators = None,
           searchRegex = \<lparr>rx_matcher = literal_matcher ''b'', multiline = False, lastIndex = 2\<rparr>,
           prevMatchStartIndex = 1, prevMatchLength = 1\<rparr>)
   \<and> scan_all
        \<lparr>wordSeparators = None,
         searchRegex = \<lparr>rx_matcher = literal_matcher ''b'', multiline = False, lastIndex = 0\<rparr>,
         prevMatchStartIndex = -1, prevMatchLength = 0\<rparr> ''ab''
       = [\<lparr>index = 1, match0 = ''b'', captures = []\<rparr>]"
  using end_of_text_stops_scan[of
      "\<lparr>wordSeparators = None,
        searchRegex = \<lparr>rx_matcher = literal_matcher ''b'', multiline = False, lastIndex = 2\<rparr>,
        prevMatchStartIndex = 1, prevMatchLength = 1\<rparr>"
      "''ab''"
      "\<lparr>wordSeparators = None,
        searchRegex = \<lparr>rx_matcher = literal_matcher ''b'', multiline = False, lastIndex = 0\<rparr>,
        prevMatchStartIndex = -1, prevMatchLength = 0\<rparr>"
      "\<lparr>index = 1, match0 = ''b'', captures = []\<rparr>"
      "\<lparr>rx_matcher = literal_matcher ''b'', multiline = False, lastIndex = 2\<rparr>"
      "\<lparr>wordSeparators = None,
        searchRegex = \<lparr>rx_matcher = literal_matcher ''b'', multiline = False, lastIndex = 0\<rparr>,
        prevMatchStartIndex = -1, prevMatchLength = 0\<rparr>"
      "\<lparr>index = 1, match0 = ''b'', captures = []\<rparr>"
      "\<lparr>wordSeparators = None,
        searchRegex = \<lparr>rx_matcher = literal_matcher ''b'', multiline = False, lastIndex = 2\<rparr>,
        prevMatchStartIndex = 1, prevMatchLength = 1\<rparr>"]
  by (simp add: scan_all.simps Searcher_next_unfold RegExp_exec_def literal_matcher_def
      acceptsMatch_def record_match_def)


text \<open>
  C6. \<^verbatim>\<open>parseSearchRequest\<close> sets the multiline flag of the expression as follows: for a
  regex request, the flag is set iff the pattern contains \<open>n\<close> or \<open>r\<close> immediately
  after a backslash that is not itself escaped (the last of an odd number of consecutive
  backslashes); otherwise it is set iff the pattern contains a line feed.
\<close>

theorem multiline_flag:
  "(parseSearchRequest env p = Some sd \<longrightarrow>
      multiline (regex sd) =
        (if isRegex p then multiline_regex_spec (searchString p)
         else LineFeed \<in> set (searchString p)))
   \<and> isMultilineRegexSource source = multiline_regex_spec source"
  using parseSearchRequest_multiline[of env p sd] isMultilineRegexSource_spec by auto

theorem multiline_flag_witness:
  "parseSearchRequest example_env
      \<lparr>searchString = [CHR ''a'', Backslash, CHR ''n'', CHR ''b''], isRegex = True,
       matchCase = True, sp_wordSeparators = []\<rparr>
     = Some \<lparr>regex = \<lparr>rx_matcher = literal_matcher [CHR ''a'', LineFeed, CHR ''b''],
                       multiline = True, lastIndex = 0\<rparr>,
             sd_wordSeparators = None, simpleSearch = None\<rparr>
   \<and> multiline_regex_spec [CHR ''a'', Backslash, CHR ''n'', CHR ''b'']
   \<and> \<not> multiline_regex_spec [CHR ''a'', Backslash, Backslash, CHR ''n'', CHR ''b'']
   \<and> \<not> isMultilineRegexSource [CHR ''a'', Backslash, Backslash, CHR ''n'', CHR ''b'']"
  using multiline_flag[of example_env
      "\<lparr>searchString = [CHR ''a'', Backslash, CHR ''n'', CHR ''b''], isRegex = True,
        matchCase = True, sp_wordSeparators = []\<rparr>"
      "\<lparr>regex = \<lparr>rx_matcher = literal_matcher [CHR ''a'', LineFeed, CHR ''b''],
                       multiline = True, lastIndex = 0\<rparr>,
             sd_wordSeparators = None, simpleSearch = None\<rparr>"
      "[CHR ''a'', Backslash, Backslash, CHR ''n'', CHR ''b'']"]
  by (simp add: parseSearchRequest_def createRegExp_def example_env_def isMultilineRegexSource_def
      Backslash_def regex_special_def escape_char_def multiline_regex_spec_def
      unescaped_newline_escape_at_def backslashes_before_def LineFeed_def)


text \<open>
  C7 (as amended). For every buffer, query, search range, capture flag and result limit,
  the sequence returned by \<^verbatim>\<open>findMatches\<close> has at most \<open>resultLimit\<close> entries when the
  limit is at least 1, and at most one entry when the limit is 0 or negative (each loop
  stores a match before it compares the count with the limit), in the multiline and in
  the line-by-line strategy.
\<close>

theorem findMatches_at_most_limit:
  "int (length (findMatches env model p rng c l)) \<le> max 1 l"
  by (rule findMatches_bound)

theorem findMatches_at_most_limit_witness:
  "int (length (findMatches example_env foo_bar_buffer foo_query (new_Range 1 1 2 8) False 1))
     \<le> 1
   \<and> findMatches example_env foo_bar_buffer foo_query (new_Range 1 1 2 8) False 1
       = [\<lparr>fm_range = new_Range 1 1 1 4, fm_matches = None\<rparr>]"
  using findMatches_at_most_limit[of example_env foo_bar_buffer foo_query "new_Range 1 1 2 8"
      False 1]
  by (simp add: eval_defs)

text \<open>
  C7 as stated fails for the limit 0: the first match is stored before the count is
  compared with the limit.
\<close>

theorem findMatches_limit_zero_counterexample:
  "\<not> int (length (findMatches example_env foo_bar_buffer foo_query (new_Range 1 1 2 8)
                     False 0)) \<le> 0"
  by (simp add: eval_defs)


text \<open>
  C1. In a buffer whose end of line is \<^verbatim>\<open>\r\n\<close>, each match range of the multiline
  strategy (the collecting loop behind \<^verbatim>\<open>findMatches\<close> and \<^verbatim>\<open>findPreviousMatch\<close>, and
  the pass of \<^verbatim>\<open>findNextMatch\<close>) comes from the offset of the match in the text joined
  with line feeds by adding one character to the start offset for every line feed before
  the match, and to the end offset also one for every line feed inside the matched text.
  The regex \<^verbatim>\<open>a\nb\<close> over the buffer \<^verbatim>\<open>a\r\nb\<close> is reported at (1,1)-(2,2).
\<close>

theorem multiline_match_range_crlf:
  "(getEOL model = CRLF_EOL \<longrightarrow>
      fst (doFindMatchesMultiline model rng s c l) =
        map (\<lambda>m. createFindMatch
                    (crlf_match_range model (getOffsetAt model (getStartPosition rng))
                       (getValueInRange model rng LF) (index m) (match0 m)) m c)
          (take (room l 0) (scan_all (Searcher_reset s 0) (getValueInRange model rng LF)))
      \<and> fst (doFindNextMatchMultiline_pass model start s c) =
          map_option
            (\<lambda>m. createFindMatch
                    (crlf_match_range model
                       (getOffsetAt model (new_Position (lineNumber start) 1))
                       (getValueInRange model
                          (new_Range (lineNumber start) 1 (getLineCount model)
                             (getLineMaxColumn model (getLineCount model))) LF)
                       (index m) (match0 m)) m c)
            (fst (Searcher_next (Searcher_reset s (column start - 1))
                    (getValueInRange model
                       (new_Range (lineNumber start) 1 (getLineCount model)
                          (getLineMaxColumn model (getLineCount model))) LF))))
   \<and> findMatches example_env a_b_crlf_buffer a_newline_b_query (new_Range 1 1 2 2) False 999
       = [\<lparr>fm_range = new_Range 1 1 2 2, fm_matches = None\<rparr>]
   \<and> findNextMatch example_env a_b_crlf_buffer a_newline_b_query (new_Position 1 1) False
       = Some \<lparr>fm_range = new_Range 1 1 2 2, fm_matches = None\<rparr>
   \<and> findPreviousMatch example_env a_b_crlf_buffer a_newline_b_query (new_Position 2 2) False
       = Some \<lparr>fm_range = new_Range 1 1 2 2, fm_matches = None\<rparr>"
proof (intro conjI impI)
  assume "getEOL model = CRLF_EOL"
  then show "fst (doFindMatchesMultiline model rng s c l) =
        map (\<lambda>m. createFindMatch
                    (crlf_match_range model (getOffsetAt model (getStartPosition rng))
                       (getValueInRange model rng LF) (index m) (match0 m)) m c)
          (take (room l 0) (scan_all (Searcher_reset s 0) (getValueInRange model rng LF)))"
    by (rule doFindMatchesMultiline_crlf)
next
  assume "getEOL model = CRLF_EOL"
  then show "fst (doFindNextMatchMultiline_pass model start s c) =
          map_option
            (\<lambda>m. createFindMatch
                    (crlf_match_range model
                       (getOffsetAt model (new_Position (lineNumber start) 1))
                       (getValueInRange model
                          (new_Range (lineNumber start) 1 (getLineCount model)
                             (getLineMaxColumn model (getLineCount model))) LF)
                       (index m) (match0 m)) m c)
            (fst (Searcher_next (Searcher_reset s (column start - 1))
                    (getValueInRange model
                       (new_Range (lineNumber start) 1 (getLineCount model)
                          (getLineMaxColumn model (getLineCount model))) LF)))"
    by (rule doFindNextMatchMultiline_pass_crlf)
next
  show "findMatches example_env a_b_crlf_buffer a_newline_b_query (new_Range 1 1 2 2) False 999
       = [\<lparr>fm_range = new_Range 1 1 2 2, fm_matches = None\<rparr>]"
    by (simp add: eval_defs eval_multiline)
next
  show "findNextMatch example_env a_b_crlf_buffer a_newline_b_query (new_Position 1 1) False
       = Some \<lparr>fm_range = new_Range 1 1 2 2, fm_matches = None\<rparr>"
    by (simp add: eval_defs eval_multiline)
next
  show "findPreviousMatch example_env a_b_crlf_buffer a_newline_b_query (new_Position 2 2) False
       = Some \<lparr>fm_range = new_Range 1 1 2 2, fm_matches = None\<rparr>"
    by (simp add: eval_defs eval_multiline)
qed

theorem multiline_match_range_crlf_witness:
  "getEOL a_b_crlf_buffer = CRLF_EOL
   \<and> getValueInRange a_b_crlf_buffer (new_Range 1 1 2 2) LF = [CHR ''a'', LineFeed, CHR ''b'']
   \<and> scan_all
        (Searcher_reset
           (new_Searcher None
              \<lparr>rx_matcher = literal_matcher [CHR ''a'', LineFeed, CHR ''b''],
               multiline = True, lastIndex = 0\<rparr>) 0)
        [CHR ''a'', LineFeed, CHR ''b'']
       = [\<lparr>index = 0, match0 = [CHR ''a'', LineFeed, CHR ''b''], captures = []\<rparr>]
   \<and> crlf_match_range a_b_crlf_buffer 0 [CHR ''a'', LineFeed, CHR ''b''] 0
        [CHR ''a'', LineFeed, CHR ''b''] = new_Range 1 1 2 2
   \<and> fst (doFindMatchesMultiline a_b_crlf_buffer (new_Range 1 1 2 2)
          (new_Searcher None
             \<lparr>rx_matcher = literal_matcher [CHR ''a'', LineFeed, CHR ''b''],
              multiline = True, lastIndex = 0\<rparr>) False 999)
       = [\<lparr>fm_range = new_Range 1 1 2 2, fm_matches = None\<rparr>]"
  using multiline_match_range_crlf[of a_b_crlf_buffer "new_Range 1 1 2 2"
      "new_Searcher None
             \<lparr>rx_matcher = literal_matcher [CHR ''a'', LineFeed, CHR ''b''],
              multiline = True, lastIndex = 0\<rparr>" False 999 "new_Position 1 1"]
  by (simp add: eval_defs eval_multiline scan_all.simps crlf_match_range_def lf_count_def
      room_def)










text \<open>
  C8. For a pattern that is not a regex and has no line feed, with \<^verbatim>\<open>matchCase\<close> set and
  no word separators (the engine compiling the escaped pattern to the matcher of the
  literal), \<^verbatim>\<open>findMatches\<close> over any range returns, up to the result limit, exactly the
  ranges of exact non-overlapping left-to-right substring scanning of each line of the
  range; with and without captures (the regex path and the literal fast path) the
  ranges are the same for every limit, and on each line the fast path, which is taken,
  gives the same entries as the regex path.
\<close>

theorem literal_fast_path_equivalence:
  "\<not> isRegex p \<and> matchCase p \<and> sp_wordSeparators p = [] \<and> searchString p \<noteq> []
     \<and> LineFeed \<notin> set (searchString p)
     \<and> compilePattern env (searchString p) False True False
         = Some (literal_matcher (searchString p))
   \<longrightarrow> (1 \<le> l \<longrightarrow>
          map fm_range (findMatches env model p rng c l)
            = take (nat l) (range_ranges model (searchString p) rng))
       \<and> map fm_range (findMatches env model p rng True l)
           = map fm_range (findMatches env model p rng False l)
       \<and> (\<exists>sd. parseSearchRequest env p = Some sd \<and> usesSimpleSearch sd False
              \<and> findMatchesInLine sd t ln d (length r) r False l
                  = findMatchesInLine (sd\<lparr>simpleSearch := None\<rparr>) t ln d (length r) r False l)"
proof (intro impI)
  assume H: "\<not> isRegex p \<and> matchCase p \<and> sp_wordSeparators p = [] \<and> searchString p \<noteq> []
     \<and> LineFeed \<notin> set (searchString p)
     \<and> compilePattern env (searchString p) False True False
         = Some (literal_matcher (searchString p))"
  let ?pat = "searchString p"
  let ?sd = "\<lparr>regex = \<lparr>rx_matcher = literal_matcher ?pat, multiline = False, lastIndex = 0\<rparr>,
                  sd_wordSeparators = None, simpleSearch = Some ?pat\<rparr>"
  from H have ps: "parseSearchRequest env p = Some ?sd"
    by (intro parseSearchRequest_literal) simp_all
  from H have ne: "?pat \<noteq> []" by simp
  have sdp: "sd_wordSeparators ?sd = None" "rx_matcher (regex ?sd) = literal_matcher ?pat"
    "simpleSearch ?sd = Some ?pat" by simp_all
  have fm: "findMatches env model p rng c' l' = doFindMatchesLineByLine model rng ?sd c' l'"
    for c' l' by (simp add: findMatches_def ps)
  have A: "1 \<le> l \<longrightarrow>
          map fm_range (findMatches env model p rng c l)
            = take (nat l) (range_ranges model ?pat rng)"
    unfolding fm using doFindMatchesLineByLine_literal[OF sdp(1,2) ne sdp(3)] by blast
  have B: "map fm_range (findMatches env model p rng True l)
           = map fm_range (findMatches env model p rng False l)"
    unfolding fm doFindMatchesLineByLine_literal_gather[OF sdp(1,2) ne sdp(3)] ..
  have C: "\<exists>sd. parseSearchRequest env p = Some sd \<and> usesSimpleSearch sd False
              \<and> findMatchesInLine sd t ln d (length r) r False l
                  = findMatchesInLine (sd\<lparr>simpleSearch := None\<rparr>) t ln d (length r) r False l"
    using ps ne findMatchesInLine_literal_paths[OF sdp(1,2) ne sdp(3), of t ln d r l]
    by (intro exI[of _ ?sd]) (simp add: usesSimpleSearch_def)
  from A B C show "(1 \<le> l \<longrightarrow>
          map fm_range (findMatches env model p rng c l)
            = take (nat l) (range_ranges model (searchString p) rng))
       \<and> map fm_range (findMatches env model p rng True l)
           = map fm_range (findMatches env model p rng False l)
       \<and> (\<exists>sd. parseSearchRequest env p = Some sd \<and> usesSimpleSearch sd False
              \<and> findMatchesInLine sd t ln d (length r) r False l
                  = findMatchesInLine (sd\<lparr>simpleSearch := None\<rparr>) t ln d (length r) r False l)"
    by blast
qed

theorem literal_fast_path_equivalence_witness:
  "\<not> isRegex foo_query \<and> matchCase foo_query \<and> sp_wordSeparators foo_query = []
   \<and> searchString foo_query = ''foo'' \<and> LineFeed \<notin> set ''foo''
   \<and> compilePattern example_env ''foo'' False True False = Some (literal_matcher ''foo'')
   \<and> (1::int) \<le> 999
   \<and> range_ranges foo_bar_buffer ''foo'' (new_Range 1 1 2 8)
       = [new_Range 1 1 1 4, new_Range 2 5 2 8]
   \<and> map fm_range (findMatches example_env foo_bar_buffer foo_query (new_Range 1 1 2 8) True 999)
       = [new_Range 1 1 1 4, new_Range 2 5 2 8]
   \<and> map fm_range (findMatches example_env foo_bar_buffer foo_query (new_Range 1 1 2 8) False 999)
       = [new_Range 1 1 1 4, new_Range 2 5 2 8]"
  using literal_fast_path_equivalence[of foo_query example_env 999 foo_bar_buffer
      "new_Range 1 1 2 8" True "''foo bar''" 1 0 "[]"]
  by (simp add: eval_defs range_ranges_def line_ranges_def substring_scan.simps
      Searcher_next_unfold Searcher_reset_def new_Searcher_def RegExp_exec_def
      literal_matcher_def record_match_def createFindMatch_def)






end
